theory Spec2Isabelle
  imports Main
begin

section \<open>Memory model\<close>

text \<open>
  The free store is a list of blocks; the address of a block is its index and a freed
  block is \<open>None\<close>, so a fresh block never reuses an address. A block is a list of
  slots: \<open>Raw\<close> is storage without an object, \<open>Live x\<close> holds a constructed \<open>T\<close>
  whose value is \<open>x\<close>. A \<open>T*\<close> is the null pointer or a block address with a slot
  offset. The type \<open>size_t\<close> is modelled by \<open>nat\<close>: a count that a block can hold
  stays far below \<open>2 ^ 64\<close>, and the one subtraction of the source that can wrap
  (\<open>size_ - 1\<close> on an empty vector) is written out where it occurs. A capacity that
  the caller chooses is not such a count; what is proved about it assumes that its
  byte count does not wrap (\<open>fits\<close>, below).
\<close>

datatype 'a slot = Raw | Live 'a

datatype ptr = Null | Ptr nat nat

datatype exn = bad_alloc | elem_exn

text \<open>
  What a call can do: return a value, leave by an exception (both with the state they
  leave behind), stop at a failed \<open>assert\<close>, or do something the language leaves
  undefined.
\<close>

datatype ('r, 's) outcome = Return 'r 's | Throw exn 's | AssertFail | Undefined

text \<open>The members \<open>buffer_\<close>, \<open>capacity_\<close>, \<open>data_\<close> and \<open>size_\<close> of the source
  are written with a prime, since a name cannot end in an underscore here.\<close>

record RawMemory =
  buffer' :: ptr
  capacity' :: nat

record Vector =
  data' :: RawMemory
  size' :: nat

text \<open>
  The state: the free store, the \<open>Vector\<close> objects by address, the outcomes of the
  coming calls of \<open>operator new\<close> (\<open>True\<close>: it throws; an empty list: it succeeds),
  the objects whose storage went away without their destructor having run, and two
  counters of the calls of the copy and the move constructor of \<open>T\<close> by which the
  container takes an element it holds from one slot to another: \<open>copy_calls\<close> counts
  the calls made by \<open>std::uninitialized_copy_n\<close>, \<open>move_calls\<close> those made by
  \<open>std::uninitialized_move_n\<close> and the one by which \<open>InsertWithoutReallocating\<close>
  moves the last element up. The construction of a new element from the arguments of
  \<open>EmplaceBack\<close> or \<open>Emplace\<close> is not counted, whatever constructor it is.
\<close>

record 'a state =
  blocks :: "'a slot list option list"
  vecs :: "nat \<Rightarrow> Vector option"
  new_fails :: "bool list"
  leaked :: "'a list"
  copy_calls :: nat
  move_calls :: nat

text \<open>
  The element type \<open>T\<close>: what its special members do to values (\<open>None\<close>: the call
  throws and leaves its operands as they were), the two traits the container asks
  about, and \<open>sizeof(T)\<close>. A move returns the new object and what is left of its
  source.
\<close>

record 'a T_ops =
  default_construct :: "'a option"
  copy_construct :: "'a \<Rightarrow> 'a option"
  move_construct :: "'a \<Rightarrow> ('a \<times> 'a) option"
  copy_assign :: "'a \<Rightarrow> 'a \<Rightarrow> 'a option"
  move_assign :: "'a \<Rightarrow> 'a \<Rightarrow> ('a \<times> 'a) option"
  is_nothrow_move_constructible :: bool
  is_copy_constructible :: bool
  sizeof :: nat

subsection \<open>Sequencing and unwinding\<close>

definition seq :: "('r, 's) outcome \<Rightarrow> ('r \<Rightarrow> 's \<Rightarrow> ('q, 's) outcome) \<Rightarrow> ('q, 's) outcome" where
  "seq m f = (case m of Return r s \<Rightarrow> f r s | Throw e s \<Rightarrow> Throw e s
                | AssertFail \<Rightarrow> AssertFail | Undefined \<Rightarrow> Undefined)"

text \<open>\<open>unwind m c\<close>: when \<open>m\<close> throws, run \<open>c\<close> (the destructor of a local, or a
  \<open>catch (...)\<close> block that ends in \<open>throw;\<close>) and let the exception go on.\<close>

definition unwind :: "('r, 's) outcome \<Rightarrow> ('s \<Rightarrow> (unit, 's) outcome) \<Rightarrow> ('r, 's) outcome" where
  "unwind m c = (case m of Throw e s \<Rightarrow> seq (c s) (\<lambda>_ s'. Throw e s') | other \<Rightarrow> other)"

subsection \<open>Pointers\<close>

fun ptr_add :: "ptr \<Rightarrow> nat \<Rightarrow> ptr option" where
  "ptr_add Null 0 = Some Null"
| "ptr_add Null (Suc n) = None"
| "ptr_add (Ptr b i) n = Some (Ptr b (i + n))"

fun ptr_sub :: "ptr \<Rightarrow> nat \<Rightarrow> ptr option" where
  "ptr_sub Null 0 = Some Null"
| "ptr_sub Null (Suc n) = None"
| "ptr_sub (Ptr b i) n = (if n \<le> i then Some (Ptr b (i - n)) else None)"

text \<open>\<open>ptr_diff p q\<close> is \<open>p - q\<close> where \<open>q\<close> does not lie after \<open>p\<close> in the same
  block; \<open>ptr_le p q\<close> is \<open>p <= q\<close>, with no answer for pointers into different
  blocks.\<close>

fun ptr_diff :: "ptr \<Rightarrow> ptr \<Rightarrow> nat option" where
  "ptr_diff Null Null = Some 0"
| "ptr_diff (Ptr b i) (Ptr c j) = (if b = c \<and> j \<le> i then Some (i - j) else None)"
| "ptr_diff _ _ = None"

fun ptr_le :: "ptr \<Rightarrow> ptr \<Rightarrow> bool option" where
  "ptr_le Null Null = Some True"
| "ptr_le (Ptr b i) (Ptr c j) = (if b = c then Some (i \<le> j) else None)"
| "ptr_le _ _ = None"

fun ptr_inc :: "ptr \<Rightarrow> ptr" where
  "ptr_inc Null = Null"
| "ptr_inc (Ptr b i) = Ptr b (Suc i)"

subsection \<open>Slots\<close>

definition block_at :: "'a state \<Rightarrow> nat \<Rightarrow> 'a slot list option" where
  "block_at s b = (if b < length (blocks s) then blocks s ! b else None)"

fun slot_at :: "'a state \<Rightarrow> ptr \<Rightarrow> 'a slot option" where
  "slot_at s Null = None"
| "slot_at s (Ptr b i) =
     (case block_at s b of None \<Rightarrow> None
      | Some sl \<Rightarrow> if i < length sl then Some (sl ! i) else None)"

definition load :: "'a state \<Rightarrow> ptr \<Rightarrow> 'a option" where
  "load s p = (case slot_at s p of Some (Live x) \<Rightarrow> Some x | _ \<Rightarrow> None)"

fun set_slot :: "'a state \<Rightarrow> ptr \<Rightarrow> 'a slot \<Rightarrow> 'a state" where
  "set_slot s Null c = s"
| "set_slot s (Ptr b i) c =
     (case block_at s b of None \<Rightarrow> s
      | Some sl \<Rightarrow> s\<lparr>blocks := (blocks s)[b := Some (sl[i := c])]\<rparr>)"

text \<open>Placement \<open>new\<close> of a value that has been built: the storage must be a slot of a
  block; an object that was there ends without its destructor.\<close>

definition placement_new :: "ptr \<Rightarrow> 'a \<Rightarrow> 'a state \<Rightarrow> (unit, 'a state) outcome" where
  "placement_new p x s =
     (case slot_at s p of None \<Rightarrow> Undefined
      | Some Raw \<Rightarrow> Return () (set_slot s p (Live x))
      | Some (Live y) \<Rightarrow> Return () ((set_slot s p (Live x))\<lparr>leaked := leaked s @ [y]\<rparr>))"

text \<open>\<open>new (p) T(args...)\<close>: \<open>mk\<close> is what \<open>T(args...)\<close> gives, \<open>None\<close> when it throws.\<close>

definition construct_at :: "ptr \<Rightarrow> 'a option \<Rightarrow> 'a state \<Rightarrow> (unit, 'a state) outcome" where
  "construct_at p mk s =
     (case mk of None \<Rightarrow> Throw elem_exn s | Some x \<Rightarrow> placement_new p x s)"

definition destroy_at :: "ptr \<Rightarrow> 'a state \<Rightarrow> (unit, 'a state) outcome" where
  "destroy_at p s =
     (case slot_at s p of Some (Live x) \<Rightarrow> Return () (set_slot s p Raw) | _ \<Rightarrow> Undefined)"

fun destroy_n :: "ptr \<Rightarrow> nat \<Rightarrow> 'a state \<Rightarrow> (unit, 'a state) outcome" where
  "destroy_n first 0 s = Return () s"
| "destroy_n first (Suc n) s = seq (destroy_at first s) (\<lambda>_. destroy_n (ptr_inc first) n)"

subsection \<open>operator new and operator delete\<close>

definition live_values :: "'a slot list \<Rightarrow> 'a list" where
  "live_values sl = concat (map (\<lambda>c. case c of Raw \<Rightarrow> [] | Live x \<Rightarrow> [x]) sl)"

definition operator_new :: "nat \<Rightarrow> 'a state \<Rightarrow> (ptr, 'a state) outcome" where
  "operator_new n s =
     (case new_fails s of
        True # fs \<Rightarrow> Throw bad_alloc (s\<lparr>new_fails := fs\<rparr>)
      | False # fs \<Rightarrow> Return (Ptr (length (blocks s)) 0)
                       (s\<lparr>blocks := blocks s @ [Some (replicate n Raw)], new_fails := fs\<rparr>)
      | [] \<Rightarrow> Return (Ptr (length (blocks s)) 0)
                (s\<lparr>blocks := blocks s @ [Some (replicate n Raw)]\<rparr>))"

text \<open>\<open>operator delete\<close> takes the null pointer or the start of a block that has not
  been freed; anything else is undefined. Objects still in the block are lost.\<close>

definition operator_delete :: "ptr \<Rightarrow> 'a state \<Rightarrow> (unit, 'a state) outcome" where
  "operator_delete p s =
     (case p of Null \<Rightarrow> Return () s
      | Ptr b i \<Rightarrow>
          if i \<noteq> 0 then Undefined
          else (case block_at s b of None \<Rightarrow> Undefined
                | Some sl \<Rightarrow> Return () (s\<lparr>blocks := (blocks s)[b := None],
                                          leaked := leaked s @ live_values sl\<rparr>)))"

subsection \<open>Algorithms of the standard library\<close>

text \<open>\<open>std::uninitialized_copy_n(first, n, d_first)\<close>: \<open>i\<close> objects have been built
  from \<open>d_first\<close> on; when a copy throws they are destroyed before the exception goes
  on.\<close>

fun uninitialized_copy_loop ::
  "'a T_ops \<Rightarrow> ptr \<Rightarrow> ptr \<Rightarrow> ptr \<Rightarrow> nat \<Rightarrow> nat \<Rightarrow> 'a state \<Rightarrow> (unit, 'a state) outcome" where
  "uninitialized_copy_loop T first d_first cur i 0 s = Return () s"
| "uninitialized_copy_loop T first d_first cur i (Suc n) s =
     (case load s first of None \<Rightarrow> Undefined
      | Some x \<Rightarrow>
          (case copy_construct T x of
             None \<Rightarrow> seq (destroy_n d_first i (s\<lparr>copy_calls := Suc (copy_calls s)\<rparr>))
                       (\<lambda>_ s'. Throw elem_exn s')
           | Some y \<Rightarrow>
               seq (placement_new cur y (s\<lparr>copy_calls := Suc (copy_calls s)\<rparr>))
                 (\<lambda>_. uninitialized_copy_loop T (ptr_inc first) d_first (ptr_inc cur) (Suc i) n)))"

definition uninitialized_copy_n ::
  "'a T_ops \<Rightarrow> ptr \<Rightarrow> nat \<Rightarrow> ptr \<Rightarrow> 'a state \<Rightarrow> (unit, 'a state) outcome" where
  "uninitialized_copy_n T first n d_first s = uninitialized_copy_loop T first d_first d_first 0 n s"

text \<open>\<open>std::uninitialized_move_n\<close>: the same with the move constructor, which leaves
  each source in its moved-from state.\<close>

fun uninitialized_move_loop ::
  "'a T_ops \<Rightarrow> ptr \<Rightarrow> ptr \<Rightarrow> ptr \<Rightarrow> nat \<Rightarrow> nat \<Rightarrow> 'a state \<Rightarrow> (unit, 'a state) outcome" where
  "uninitialized_move_loop T first d_first cur i 0 s = Return () s"
| "uninitialized_move_loop T first d_first cur i (Suc n) s =
     (case load s first of None \<Rightarrow> Undefined
      | Some x \<Rightarrow>
          (case move_construct T x of
             None \<Rightarrow> seq (destroy_n d_first i (s\<lparr>move_calls := Suc (move_calls s)\<rparr>))
                       (\<lambda>_ s'. Throw elem_exn s')
           | Some (y, x') \<Rightarrow>
               seq (placement_new cur y
                      ((set_slot s first (Live x'))\<lparr>move_calls := Suc (move_calls s)\<rparr>))
                 (\<lambda>_. uninitialized_move_loop T (ptr_inc first) d_first (ptr_inc cur) (Suc i) n)))"

definition uninitialized_move_n ::
  "'a T_ops \<Rightarrow> ptr \<Rightarrow> nat \<Rightarrow> ptr \<Rightarrow> 'a state \<Rightarrow> (unit, 'a state) outcome" where
  "uninitialized_move_n T first n d_first s = uninitialized_move_loop T first d_first d_first 0 n s"

text \<open>\<open>std::uninitialized_value_construct_n(first, n)\<close>.\<close>

fun uninitialized_value_construct_loop ::
  "'a T_ops \<Rightarrow> ptr \<Rightarrow> ptr \<Rightarrow> nat \<Rightarrow> nat \<Rightarrow> 'a state \<Rightarrow> (unit, 'a state) outcome" where
  "uninitialized_value_construct_loop T first cur i 0 s = Return () s"
| "uninitialized_value_construct_loop T first cur i (Suc n) s =
     (case default_construct T of
        None \<Rightarrow> seq (destroy_n first i s) (\<lambda>_ s'. Throw elem_exn s')
      | Some y \<Rightarrow>
          seq (placement_new cur y s)
            (\<lambda>_. uninitialized_value_construct_loop T first (ptr_inc cur) (Suc i) n))"

definition uninitialized_value_construct_n ::
  "'a T_ops \<Rightarrow> ptr \<Rightarrow> nat \<Rightarrow> 'a state \<Rightarrow> (unit, 'a state) outcome" where
  "uninitialized_value_construct_n T first n s = uninitialized_value_construct_loop T first first 0 n s"

text \<open>\<open>*d = std::move(*p)\<close> and \<open>*d = *p\<close> on two slots that hold objects.\<close>

definition move_assign_at :: "'a T_ops \<Rightarrow> ptr \<Rightarrow> ptr \<Rightarrow> 'a state \<Rightarrow> (unit, 'a state) outcome" where
  "move_assign_at T d p s =
     (case load s p of None \<Rightarrow> Undefined
      | Some x \<Rightarrow>
          (case load s d of None \<Rightarrow> Undefined
           | Some y \<Rightarrow>
               (case move_assign T y x of None \<Rightarrow> Throw elem_exn s
                | Some (y', x') \<Rightarrow> Return () (set_slot (set_slot s p (Live x')) d (Live y')))))"

definition copy_assign_at :: "'a T_ops \<Rightarrow> ptr \<Rightarrow> ptr \<Rightarrow> 'a state \<Rightarrow> (unit, 'a state) outcome" where
  "copy_assign_at T d p s =
     (case load s p of None \<Rightarrow> Undefined
      | Some x \<Rightarrow>
          (case load s d of None \<Rightarrow> Undefined
           | Some y \<Rightarrow>
               (case copy_assign T y x of None \<Rightarrow> Throw elem_exn s
                | Some y' \<Rightarrow> Return () (set_slot s d (Live y')))))"

text \<open>\<open>std::move(first, last, d_first)\<close>, forwards; \<open>[first, last)\<close> must be a range.\<close>

fun move_loop :: "'a T_ops \<Rightarrow> ptr \<Rightarrow> ptr \<Rightarrow> nat \<Rightarrow> 'a state \<Rightarrow> (unit, 'a state) outcome" where
  "move_loop T first d_first 0 s = Return () s"
| "move_loop T first d_first (Suc n) s =
     seq (move_assign_at T d_first first s) (\<lambda>_. move_loop T (ptr_inc first) (ptr_inc d_first) n)"

definition std_move :: "'a T_ops \<Rightarrow> ptr \<Rightarrow> ptr \<Rightarrow> ptr \<Rightarrow> 'a state \<Rightarrow> (unit, 'a state) outcome" where
  "std_move T first lastp d_first s =
     (case ptr_diff lastp first of None \<Rightarrow> Undefined | Some n \<Rightarrow> move_loop T first d_first n s)"

text \<open>\<open>std::move_backward(first, last, d_last)\<close>: from the back,
  \<open>*(--d_last) = std::move(*(--last))\<close>.\<close>

fun move_backward_loop :: "'a T_ops \<Rightarrow> ptr \<Rightarrow> ptr \<Rightarrow> nat \<Rightarrow> 'a state \<Rightarrow> (unit, 'a state) outcome" where
  "move_backward_loop T lastp d_last 0 s = Return () s"
| "move_backward_loop T lastp d_last (Suc n) s =
     (case ptr_sub lastp 1 of None \<Rightarrow> Undefined
      | Some lastp' \<Rightarrow>
          (case ptr_sub d_last 1 of None \<Rightarrow> Undefined
           | Some d_last' \<Rightarrow>
               seq (move_assign_at T d_last' lastp' s) (\<lambda>_. move_backward_loop T lastp' d_last' n)))"

definition move_backward :: "'a T_ops \<Rightarrow> ptr \<Rightarrow> ptr \<Rightarrow> ptr \<Rightarrow> 'a state \<Rightarrow> (unit, 'a state) outcome" where
  "move_backward T first lastp d_last s =
     (case ptr_diff lastp first of None \<Rightarrow> Undefined | Some n \<Rightarrow> move_backward_loop T lastp d_last n s)"

text \<open>\<open>std::copy_n(first, n, result)\<close>.\<close>

fun copy_n :: "'a T_ops \<Rightarrow> ptr \<Rightarrow> nat \<Rightarrow> ptr \<Rightarrow> 'a state \<Rightarrow> (unit, 'a state) outcome" where
  "copy_n T first 0 result s = Return () s"
| "copy_n T first (Suc n) result s =
     seq (copy_assign_at T result first s) (\<lambda>_. copy_n T (ptr_inc first) n (ptr_inc result))"

section \<open>RawMemory\<close>

text \<open>\<open>Allocate(n)\<close> asks \<open>operator new\<close> for \<open>n * sizeof(T)\<close> bytes, a product
  computed in \<open>size_t\<close>, and the model gives the block \<open>n\<close> slots. That is the block
  of the code when the product does not wrap, which \<open>fits T n\<close> says; when it wraps,
  the code gets a smaller block than the capacity it records.\<close>

definition fits :: "'a T_ops \<Rightarrow> nat \<Rightarrow> bool" where
  "fits T n = (n * sizeof T < 2 ^ 64)"

definition Allocate :: "nat \<Rightarrow> 'a state \<Rightarrow> (ptr, 'a state) outcome" where
  "Allocate n s = (if n \<noteq> 0 then operator_new n s else Return Null s)"

definition Deallocate :: "ptr \<Rightarrow> 'a state \<Rightarrow> (unit, 'a state) outcome" where
  "Deallocate buf s = operator_delete buf s"

definition RawMemory_default :: RawMemory where
  "RawMemory_default = \<lparr>buffer' = Null, capacity' = 0\<rparr>"

definition RawMemory_ctor :: "nat \<Rightarrow> 'a state \<Rightarrow> (RawMemory, 'a state) outcome" where
  "RawMemory_ctor capacity s =
     seq (Allocate capacity s) (\<lambda>p. Return \<lparr>buffer' = p, capacity' = capacity\<rparr>)"

definition RawMemory_dtor :: "RawMemory \<Rightarrow> 'a state \<Rightarrow> (unit, 'a state) outcome" where
  "RawMemory_dtor m s = Deallocate (buffer' m) s"

text \<open>\<open>operator+\<close> and \<open>operator[]\<close> of RawMemory, with their assertions; the
  reference that \<open>operator[]\<close> returns is the address of the slot.\<close>

definition RawMemory_plus :: "RawMemory \<Rightarrow> nat \<Rightarrow> 'a state \<Rightarrow> (ptr, 'a state) outcome" where
  "RawMemory_plus m offset s =
     (if offset \<le> capacity' m
      then (case ptr_add (buffer' m) offset of None \<Rightarrow> Undefined | Some p \<Rightarrow> Return p s)
      else AssertFail)"

definition RawMemory_index :: "RawMemory \<Rightarrow> nat \<Rightarrow> 'a state \<Rightarrow> (ptr, 'a state) outcome" where
  "RawMemory_index m index s =
     (if index < capacity' m
      then (case ptr_add (buffer' m) index of None \<Rightarrow> Undefined | Some p \<Rightarrow> Return p s)
      else AssertFail)"

definition RawMemory_Swap :: "RawMemory \<times> RawMemory \<Rightarrow> RawMemory \<times> RawMemory" where
  "RawMemory_Swap mo = (case mo of (m, other) \<Rightarrow>
     (m\<lparr>buffer' := buffer' other, capacity' := capacity' other\<rparr>,
      other\<lparr>buffer' := buffer' m, capacity' := capacity' m\<rparr>))"

text \<open>Move construction and move assignment of RawMemory, from a different object:
  the result and what is left of the source. The assignment overwrites \<open>buffer_\<close>
  without freeing it.\<close>

definition RawMemory_move :: "RawMemory \<Rightarrow> RawMemory \<times> RawMemory" where
  "RawMemory_move other =
     (\<lparr>buffer' = buffer' other, capacity' = capacity' other\<rparr>,
      other\<lparr>buffer' := Null, capacity' := 0\<rparr>)"

definition RawMemory_move_assign :: "RawMemory \<Rightarrow> RawMemory \<Rightarrow> RawMemory \<times> RawMemory" where
  "RawMemory_move_assign m rhs =
     (m\<lparr>buffer' := buffer' rhs, capacity' := capacity' rhs\<rparr>,
      rhs\<lparr>buffer' := Null, capacity' := 0\<rparr>)"

section \<open>Vector\<close>

definition this_obj :: "nat \<Rightarrow> 'a state \<Rightarrow> (Vector, 'a state) outcome" where
  "this_obj a s = (case vecs s a of None \<Rightarrow> Undefined | Some v \<Rightarrow> Return v s)"

definition set_vec :: "nat \<Rightarrow> Vector \<Rightarrow> 'a state \<Rightarrow> 'a state" where
  "set_vec a v s = s\<lparr>vecs := (vecs s)(a \<mapsto> v)\<rparr>"

definition Vector_begin :: "nat \<Rightarrow> 'a state \<Rightarrow> (ptr, 'a state) outcome" where
  "Vector_begin this s = seq (this_obj this s) (\<lambda>v. RawMemory_plus (data' v) 0)"

definition Vector_end :: "nat \<Rightarrow> 'a state \<Rightarrow> (ptr, 'a state) outcome" where
  "Vector_end this s = seq (this_obj this s) (\<lambda>v. RawMemory_plus (data' v) (size' v))"

definition Size :: "nat \<Rightarrow> 'a state \<Rightarrow> (nat, 'a state) outcome" where
  "Size this s = seq (this_obj this s) (\<lambda>v. Return (size' v))"

definition Capacity :: "nat \<Rightarrow> 'a state \<Rightarrow> (nat, 'a state) outcome" where
  "Capacity this s = seq (this_obj this s) (\<lambda>v. Return (capacity' (data' v)))"

text \<open>\<open>operator[]\<close>: the only check is the one of RawMemory.\<close>

definition Index :: "nat \<Rightarrow> nat \<Rightarrow> 'a state \<Rightarrow> (ptr, 'a state) outcome" where
  "Index this index s = seq (this_obj this s) (\<lambda>v. RawMemory_index (data' v) index)"

subsection \<open>Construction and destruction\<close>

definition Vector_default :: Vector where
  "Vector_default = \<lparr>data' = RawMemory_default, size' = 0\<rparr>"

text \<open>The constructors build the object that is then stored at its address; when the
  body throws, the member \<open>data_\<close>, already built, is destroyed.\<close>

definition Vector_sized :: "'a T_ops \<Rightarrow> nat \<Rightarrow> 'a state \<Rightarrow> (Vector, 'a state) outcome" where
  "Vector_sized T n s =
     seq (RawMemory_ctor n s) (\<lambda>d s.
       seq (unwind (uninitialized_value_construct_n T (buffer' d) n s) (RawMemory_dtor d))
         (\<lambda>_. Return \<lparr>data' = d, size' = n\<rparr>))"

definition Vector_copy :: "'a T_ops \<Rightarrow> Vector \<Rightarrow> 'a state \<Rightarrow> (Vector, 'a state) outcome" where
  "Vector_copy T other s =
     seq (RawMemory_ctor (size' other) s) (\<lambda>d s.
       seq (unwind (uninitialized_copy_n T (buffer' (data' other)) (size' other) (buffer' d) s)
              (RawMemory_dtor d))
         (\<lambda>_. Return \<lparr>data' = d, size' = size' other\<rparr>))"

definition Vector_move :: "Vector \<Rightarrow> Vector \<times> Vector" where
  "Vector_move other =
     (\<lparr>data' = fst (RawMemory_move (data' other)), size' = size' other\<rparr>,
      other\<lparr>data' := snd (RawMemory_move (data' other)), size' := 0\<rparr>)"

definition Vector_dtor :: "Vector \<Rightarrow> 'a state \<Rightarrow> (unit, 'a state) outcome" where
  "Vector_dtor v s =
     seq (destroy_n (buffer' (data' v)) (size' v) s) (\<lambda>_. RawMemory_dtor (data' v))"

text \<open>\<open>Vector a(other)\<close> and \<open>Vector a\<close> with the new object at address \<open>this\<close>.\<close>

definition Vector_copy_at :: "'a T_ops \<Rightarrow> nat \<Rightarrow> nat \<Rightarrow> 'a state \<Rightarrow> (unit, 'a state) outcome" where
  "Vector_copy_at T this other s =
     seq (this_obj other s) (\<lambda>ov s.
       seq (Vector_copy T ov s) (\<lambda>v s'. Return () (set_vec this v s')))"

definition Vector_default_at :: "nat \<Rightarrow> 'a state \<Rightarrow> (unit, 'a state) outcome" where
  "Vector_default_at this s = Return () (set_vec this Vector_default s)"

subsection \<open>Swap and assignment\<close>

definition Swap :: "nat \<Rightarrow> nat \<Rightarrow> 'a state \<Rightarrow> (unit, 'a state) outcome" where
  "Swap this other s =
     (if this \<noteq> other then
        seq (this_obj this s) (\<lambda>v s.
          seq (this_obj other s) (\<lambda>ov s.
            Return ()
              (set_vec other (ov\<lparr>data' := snd (RawMemory_Swap (data' v, data' ov)), size' := size' v\<rparr>)
                (set_vec this (v\<lparr>data' := fst (RawMemory_Swap (data' v, data' ov)), size' := size' ov\<rparr>) s))))
      else Return () s)"

text \<open>In the copy assignment the local \<open>rhs_copy\<close> is an object of its own, so
  \<open>Swap(rhs_copy)\<close> swaps: \<open>*this\<close> gets the copy, and \<open>rhs_copy\<close>, which now has
  the old block, is destroyed at the end of its scope.\<close>

definition CopyAssign :: "'a T_ops \<Rightarrow> nat \<Rightarrow> nat \<Rightarrow> 'a state \<Rightarrow> (unit, 'a state) outcome" where
  "CopyAssign T this rhs s =
     (if this \<noteq> rhs then
        seq (this_obj this s) (\<lambda>v s.
          seq (this_obj rhs s) (\<lambda>r s.
            seq (if size' r > capacity' (data' v) then
                   seq (Vector_copy T r s) (\<lambda>rhs_copy s.
                     Vector_dtor (rhs_copy\<lparr>data' := snd (RawMemory_Swap (data' v, data' rhs_copy)),
                                           size' := size' v\<rparr>)
                       (set_vec this (v\<lparr>data' := fst (RawMemory_Swap (data' v, data' rhs_copy)),
                                        size' := size' rhs_copy\<rparr>) s))
                 else
                   seq (copy_n T (buffer' (data' r)) (min (size' v) (size' r)) (buffer' (data' v)) s)
                     (\<lambda>_ s.
                       if size' v \<ge> size' r then
                         seq (RawMemory_plus (data' v) (size' r) s)
                           (\<lambda>p. destroy_n p (size' v - size' r))
                       else
                         seq (RawMemory_plus (data' r) (size' v) s) (\<lambda>src s.
                           seq (RawMemory_plus (data' v) (size' v) s) (\<lambda>dst.
                             uninitialized_copy_n T src (size' r - size' v) dst))))
              (\<lambda>_ s. seq (this_obj this s) (\<lambda>v' s. Return () (set_vec this (v'\<lparr>size' := size' r\<rparr>) s)))))
      else Return () s)"

definition MoveAssign :: "nat \<Rightarrow> nat \<Rightarrow> 'a state \<Rightarrow> (unit, 'a state) outcome" where
  "MoveAssign this rhs s =
     (if this \<noteq> rhs then
        seq (this_obj this s) (\<lambda>v s.
          seq (this_obj rhs s) (\<lambda>r s.
            Return ()
              (set_vec rhs (r\<lparr>data' := snd (RawMemory_move_assign (data' v) (data' r)), size' := 0\<rparr>)
                (set_vec this (v\<lparr>data' := fst (RawMemory_move_assign (data' v) (data' r)),
                                 size' := size' r\<rparr>) s))))
      else Return () s)"

subsection \<open>Reserve, Resize, EmplaceBack, PushBack, PopBack\<close>

definition Reserve :: "'a T_ops \<Rightarrow> nat \<Rightarrow> nat \<Rightarrow> 'a state \<Rightarrow> (unit, 'a state) outcome" where
  "Reserve T this new_capacity s =
     seq (this_obj this s) (\<lambda>v s.
       if new_capacity \<le> capacity' (data' v) then Return () s
       else
         seq (RawMemory_ctor new_capacity s) (\<lambda>new_data s.
           seq (unwind
                  (seq (if is_nothrow_move_constructible T \<or> \<not> is_copy_constructible T
                        then uninitialized_move_n T (buffer' (data' v)) (size' v) (buffer' new_data) s
                        else uninitialized_copy_n T (buffer' (data' v)) (size' v) (buffer' new_data) s)
                     (\<lambda>_. destroy_n (buffer' (data' v)) (size' v)))
                  (RawMemory_dtor new_data))
             (\<lambda>_ s. RawMemory_dtor (snd (RawMemory_Swap (data' v, new_data)))
                      (set_vec this (v\<lparr>data' := fst (RawMemory_Swap (data' v, new_data))\<rparr>) s))))"

definition Resize :: "'a T_ops \<Rightarrow> nat \<Rightarrow> nat \<Rightarrow> 'a state \<Rightarrow> (unit, 'a state) outcome" where
  "Resize T this new_size s =
     seq (this_obj this s) (\<lambda>v s.
       seq (if new_size \<le> size' v then
              seq (RawMemory_plus (data' v) new_size s) (\<lambda>p. destroy_n p (size' v - new_size))
            else
              seq (Reserve T this new_size s) (\<lambda>_ s.
                seq (this_obj this s) (\<lambda>v' s.
                  seq (RawMemory_plus (data' v') (size' v') s) (\<lambda>p.
                    uninitialized_value_construct_n T p (new_size - size' v')))))
         (\<lambda>_ s. seq (this_obj this s) (\<lambda>v' s. Return () (set_vec this (v'\<lparr>size' := new_size\<rparr>) s))))"

text \<open>\<open>EmplaceBack(args...)\<close>; \<open>mk\<close> is what \<open>T(args...)\<close> gives. The result is the
  address of the slot the returned reference denotes.\<close>

definition EmplaceBack :: "'a T_ops \<Rightarrow> nat \<Rightarrow> 'a option \<Rightarrow> 'a state \<Rightarrow> (ptr, 'a state) outcome" where
  "EmplaceBack T this mk s =
     seq (this_obj this s) (\<lambda>v s.
       seq (if size' v = capacity' (data' v) then
              seq (RawMemory_ctor (if size' v = 0 then 1 else size' v * 2) s) (\<lambda>new_data s.
                seq (unwind
                       (seq (RawMemory_plus new_data (size' v) s) (\<lambda>p s.
                          seq (construct_at p mk s) (\<lambda>_ s.
                            seq (if is_nothrow_move_constructible T \<or> \<not> is_copy_constructible T
                                 then uninitialized_move_n T (buffer' (data' v)) (size' v) (buffer' new_data) s
                                 else uninitialized_copy_n T (buffer' (data' v)) (size' v) (buffer' new_data) s)
                              (\<lambda>_. destroy_n (buffer' (data' v)) (size' v)))))
                       (RawMemory_dtor new_data))
                  (\<lambda>_ s. RawMemory_dtor (snd (RawMemory_Swap (data' v, new_data)))
                           (set_vec this (v\<lparr>data' := fst (RawMemory_Swap (data' v, new_data))\<rparr>) s)))
            else
              seq (RawMemory_plus (data' v) (size' v) s) (\<lambda>p. construct_at p mk))
         (\<lambda>_ s. seq (this_obj this s) (\<lambda>v' s.
            seq (RawMemory_index (data' v') (size' v') s) (\<lambda>r s.
              Return r (set_vec this (v'\<lparr>size' := size' v' + 1\<rparr>) s)))))"

text \<open>\<open>PushBack(value)\<close> with an lvalue: \<open>T(value)\<close> is the copy constructor.\<close>

definition PushBack :: "'a T_ops \<Rightarrow> nat \<Rightarrow> 'a \<Rightarrow> 'a state \<Rightarrow> (unit, 'a state) outcome" where
  "PushBack T this v s = seq (EmplaceBack T this (copy_construct T v) s) (\<lambda>_. Return ())"

definition PopBack :: "nat \<Rightarrow> 'a state \<Rightarrow> (unit, 'a state) outcome" where
  "PopBack this s =
     seq (this_obj this s) (\<lambda>v s.
       if size' v = 0 then AssertFail
       else
         seq (RawMemory_plus (data' v) (size' v) s) (\<lambda>e s.
           case ptr_sub e 1 of None \<Rightarrow> Undefined
           | Some p \<Rightarrow> seq (destroy_at p s) (\<lambda>_ s. Return () (set_vec this (v\<lparr>size' := size' v - 1\<rparr>) s))))"

subsection \<open>Emplace, Insert, Erase\<close>

text \<open>\<open>InsertAndReallocate\<close> is private and is called with \<open>offset <= size_\<close>; a
  larger offset would make \<open>size_ - offset\<close> wrap and the copy run off the block.\<close>

definition InsertAndReallocate ::
  "'a T_ops \<Rightarrow> nat \<Rightarrow> nat \<Rightarrow> 'a option \<Rightarrow> 'a state \<Rightarrow> (unit, 'a state) outcome" where
  "InsertAndReallocate T this offset mk s =
     seq (this_obj this s) (\<lambda>v s.
       seq (RawMemory_ctor (if size' v = 0 then 1 else size' v * 2) s) (\<lambda>new_data s.
         seq (unwind
                (case ptr_add (buffer' new_data) offset of None \<Rightarrow> Undefined
                 | Some p \<Rightarrow>
                     seq (construct_at p mk s) (\<lambda>_ s.
                       if size' v < offset then Undefined
                       else
                         (case ptr_add (buffer' (data' v)) offset of None \<Rightarrow> Undefined
                          | Some src \<Rightarrow>
                              (case ptr_add (buffer' new_data) (offset + 1) of None \<Rightarrow> Undefined
                               | Some dst \<Rightarrow>
                                   seq (if is_nothrow_move_constructible T \<or> \<not> is_copy_constructible T
                                        then
                                          seq (uninitialized_move_n T (buffer' (data' v)) offset (buffer' new_data) s)
                                            (\<lambda>_. uninitialized_move_n T src (size' v - offset) dst)
                                        else
                                          seq (uninitialized_copy_n T (buffer' (data' v)) offset (buffer' new_data) s)
                                            (\<lambda>_. uninitialized_copy_n T src (size' v - offset) dst))
                                     (\<lambda>_. destroy_n (buffer' (data' v)) (size' v))))))
                (RawMemory_dtor new_data))
           (\<lambda>_ s. RawMemory_dtor (snd (RawMemory_Swap (data' v, new_data)))
                    (set_vec this (v\<lparr>data' := fst (RawMemory_Swap (data' v, new_data))\<rparr>) s))))"

text \<open>\<open>InsertWithoutReallocating\<close>. The local \<open>temp\<close> is a value; \<open>data_[size_ - 1]\<close>
  on an empty vector has the index \<open>SIZE_MAX\<close>, which fails the assertion of
  \<open>operator[]\<close>.\<close>

definition InsertWithoutReallocating ::
  "'a T_ops \<Rightarrow> nat \<Rightarrow> ptr \<Rightarrow> nat \<Rightarrow> 'a option \<Rightarrow> 'a state \<Rightarrow> (unit, 'a state) outcome" where
  "InsertWithoutReallocating T this pos offset mk s =
     seq (this_obj this s) (\<lambda>v s.
       seq (Vector_end this s) (\<lambda>e s.
         if pos \<noteq> e then
           (case mk of None \<Rightarrow> Throw elem_exn s
            | Some temp \<Rightarrow>
                if size' v = 0 then AssertFail
                else
                  seq (RawMemory_index (data' v) (size' v - 1) s) (\<lambda>lp s.
                    case load s lp of None \<Rightarrow> Undefined
                    | Some x \<Rightarrow>
                        (case move_construct T x of
                           None \<Rightarrow> Throw elem_exn (s\<lparr>move_calls := Suc (move_calls s)\<rparr>)
                         | Some (y, x') \<Rightarrow>
                             seq (placement_new e y
                                    ((set_slot s lp (Live x'))\<lparr>move_calls := Suc (move_calls s)\<rparr>))
                               (\<lambda>_ s.
                                 seq (Vector_begin this s) (\<lambda>b s.
                                   case ptr_add b offset of None \<Rightarrow> Undefined
                                   | Some first \<Rightarrow>
                                       (case ptr_sub e 1 of None \<Rightarrow> Undefined
                                        | Some lastp \<Rightarrow>
                                            seq (move_backward T first lastp e s) (\<lambda>_ s.
                                              case load s first of None \<Rightarrow> Undefined
                                              | Some y0 \<Rightarrow>
                                                  (case move_assign T y0 temp of
                                                     None \<Rightarrow> Throw elem_exn s
                                                   | Some (y', temp') \<Rightarrow>
                                                       Return () (set_slot s first (Live y'))))))))))
         else construct_at e mk s))"

text \<open>\<open>Emplace(pos, args...)\<close>: the assertion, the two paths, and the handler around
  the second one, which passes \<open>end()\<close> to \<open>operator delete\<close> and throws again.\<close>

definition Emplace :: "'a T_ops \<Rightarrow> nat \<Rightarrow> ptr \<Rightarrow> 'a option \<Rightarrow> 'a state \<Rightarrow> (ptr, 'a state) outcome" where
  "Emplace T this pos mk s =
     seq (Vector_begin this s) (\<lambda>b s.
       case ptr_le b pos of None \<Rightarrow> Undefined
       | Some ge \<Rightarrow>
           if \<not> ge then AssertFail
           else
             seq (Vector_end this s) (\<lambda>e s.
               case ptr_le pos e of None \<Rightarrow> Undefined
               | Some le \<Rightarrow>
                   if \<not> le then AssertFail
                   else
                     (case ptr_diff pos b of None \<Rightarrow> Undefined
                      | Some offset \<Rightarrow>
                          seq (this_obj this s) (\<lambda>v s.
                            seq (if size' v = capacity' (data' v)
                                 then InsertAndReallocate T this offset mk s
                                 else unwind (InsertWithoutReallocating T this pos offset mk s)
                                        (\<lambda>s. seq (Vector_end this s) operator_delete))
                              (\<lambda>_ s.
                                seq (this_obj this s) (\<lambda>v' s.
                                  seq (Vector_begin this (set_vec this (v'\<lparr>size' := size' v' + 1\<rparr>) s))
                                    (\<lambda>b' s. case ptr_add b' offset of None \<Rightarrow> Undefined
                                             | Some r \<Rightarrow> Return r s)))))))"

text \<open>\<open>Insert(pos, value)\<close> with an lvalue.\<close>

definition Insert :: "'a T_ops \<Rightarrow> nat \<Rightarrow> ptr \<Rightarrow> 'a \<Rightarrow> 'a state \<Rightarrow> (ptr, 'a state) outcome" where
  "Insert T this pos v s = Emplace T this pos (copy_construct T v) s"

definition Erase :: "'a T_ops \<Rightarrow> nat \<Rightarrow> ptr \<Rightarrow> 'a state \<Rightarrow> (ptr, 'a state) outcome" where
  "Erase T this pos s =
     seq (Vector_begin this s) (\<lambda>b s.
       case ptr_le b pos of None \<Rightarrow> Undefined
       | Some ge \<Rightarrow>
           if \<not> ge then AssertFail
           else
             seq (Vector_end this s) (\<lambda>e s.
               case ptr_le pos e of None \<Rightarrow> Undefined
               | Some le \<Rightarrow>
                   if \<not> le then AssertFail
                   else
                     (case ptr_diff pos b of None \<Rightarrow> Undefined
                      | Some offset \<Rightarrow>
                          (case ptr_add b (offset + 1) of None \<Rightarrow> Undefined
                           | Some first \<Rightarrow>
                               (case ptr_add b offset of None \<Rightarrow> Undefined
                                | Some d_first \<Rightarrow>
                                    seq (std_move T first e d_first s) (\<lambda>_ s.
                                      case ptr_sub e 1 of None \<Rightarrow> Undefined
                                      | Some lp \<Rightarrow>
                                          seq (destroy_at lp s) (\<lambda>_ s.
                                            seq (this_obj this s) (\<lambda>v s.
                                              Return d_first (set_vec this (v\<lparr>size' := size' v - 1\<rparr>) s)))))))))"

section \<open>Vocabulary of the properties\<close>

definition returns :: "('r, 's) outcome \<Rightarrow> bool" where
  "returns m = (case m of Return r s \<Rightarrow> True | _ \<Rightarrow> False)"

text \<open>\<open>leaves m s'\<close>: the call \<open>m\<close> ends, by returning or by an exception, in the
  state \<open>s'\<close>. \<open>post R E m\<close>: if \<open>m\<close> returns, \<open>R\<close> holds of its result and state,
  and if it throws, \<open>E\<close> holds of the state it leaves.\<close>

definition leaves :: "('r, 's) outcome \<Rightarrow> 's \<Rightarrow> bool" where
  "leaves m s' = (case m of Return r s \<Rightarrow> s = s' | Throw e s \<Rightarrow> s = s' | _ \<Rightarrow> False)"

definition post :: "('r \<Rightarrow> 's \<Rightarrow> bool) \<Rightarrow> ('s \<Rightarrow> bool) \<Rightarrow> ('r, 's) outcome \<Rightarrow> bool" where
  "post R E m = (case m of Return r s \<Rightarrow> R r s | Throw e s \<Rightarrow> E s | _ \<Rightarrow> True)"

text \<open>\<open>kept s m\<close>: whatever state \<open>m\<close> leaves has the vector objects of \<open>s\<close>.\<close>

definition kept :: "'a state \<Rightarrow> ('r, 'a state) outcome \<Rightarrow> bool" where
  "kept s m = post (\<lambda>_ s'. vecs s' = vecs s) (\<lambda>s'. vecs s' = vecs s) m"

text \<open>\<open>vec_is s a n c\<close>: in \<open>s\<close> there is a vector at \<open>a\<close>, with \<open>size_ = n\<close> and
  \<open>data_.capacity_ = c\<close>.\<close>

definition vec_is :: "'a state \<Rightarrow> nat \<Rightarrow> nat \<Rightarrow> nat \<Rightarrow> bool" where
  "vec_is s a n c =
     (case vecs s a of None \<Rightarrow> False | Some v \<Rightarrow> size' v = n \<and> capacity' (data' v) = c)"

text \<open>The calls that a program makes on one array, apart from move assignment and
  \<open>Swap\<close>, which give it the block of another array. \<open>run T a c\<close> makes the call
  \<open>c\<close> on the vector at \<open>a\<close> and forgets what it returns; \<open>run_all\<close> makes the
  calls of a list one after the other and stops at the first that does not return.
  \<open>request_fits T c\<close>: a size or capacity that the call asks for has a byte count
  that does not wrap.\<close>

datatype 'a call =
  Reserve_call nat | Resize_call nat | EmplaceBack_call "'a option" | PushBack_call 'a
| PopBack_call | Emplace_call ptr "'a option" | Insert_call ptr 'a | Erase_call ptr
| CopyAssign_call nat

fun run :: "'a T_ops \<Rightarrow> nat \<Rightarrow> 'a call \<Rightarrow> 'a state \<Rightarrow> (unit, 'a state) outcome" where
  "run T a (Reserve_call m) s = Reserve T a m s"
| "run T a (Resize_call m) s = Resize T a m s"
| "run T a (EmplaceBack_call mk) s = seq (EmplaceBack T a mk s) (\<lambda>_. Return ())"
| "run T a (PushBack_call x) s = PushBack T a x s"
| "run T a PopBack_call s = PopBack a s"
| "run T a (Emplace_call pos mk) s = seq (Emplace T a pos mk s) (\<lambda>_. Return ())"
| "run T a (Insert_call pos x) s = seq (Insert T a pos x s) (\<lambda>_. Return ())"
| "run T a (Erase_call pos) s = seq (Erase T a pos s) (\<lambda>_. Return ())"
| "run T a (CopyAssign_call rhs) s = CopyAssign T a rhs s"

fun run_all :: "'a T_ops \<Rightarrow> nat \<Rightarrow> 'a call list \<Rightarrow> 'a state \<Rightarrow> (unit, 'a state) outcome" where
  "run_all T a [] s = Return () s"
| "run_all T a (c # cs) s = seq (run T a c s) (\<lambda>_. run_all T a cs)"

fun request_fits :: "'a T_ops \<Rightarrow> 'a call \<Rightarrow> bool" where
  "request_fits T (Reserve_call m) = fits T m"
| "request_fits T (Resize_call m) = fits T m"
| "request_fits T c = True"

text \<open>The capacity after \<open>n\<close> calls of \<open>push_back\<close> on a default-constructed array,
  by the growth rule of \<open>EmplaceBack\<close>.\<close>

fun cap_seq :: "nat \<Rightarrow> nat" where
  "cap_seq 0 = 0"
| "cap_seq (Suc n) = (if n = cap_seq n then (if n = 0 then 1 else n * 2) else cap_seq n)"

text \<open>\<open>patch sl i cs\<close> is \<open>sl\<close> with the slots from \<open>i\<close> on replaced by \<open>cs\<close>;
  \<open>slots_are sl i cs\<close> says that \<open>sl\<close> has \<open>cs\<close> there.\<close>

definition patch :: "'b list \<Rightarrow> nat \<Rightarrow> 'b list \<Rightarrow> 'b list" where
  "patch sl i cs = take i sl @ cs @ drop (i + length cs) sl"

definition slots_are :: "'b list \<Rightarrow> nat \<Rightarrow> 'b list \<Rightarrow> bool" where
  "slots_are sl i cs = (i + length cs \<le> length sl \<and> take (length cs) (drop i sl) = cs)"

text \<open>The state after a call of \<open>operator new\<close> for \<open>n\<close> slots that succeeded.\<close>

definition add_block :: "nat \<Rightarrow> 'a state \<Rightarrow> 'a state" where
  "add_block n s = s\<lparr>blocks := blocks s @ [Some (replicate n Raw)], new_fails := tl (new_fails s)\<rparr>"

definition free_block :: "nat \<Rightarrow> 'a state \<Rightarrow> 'a state" where
  "free_block b s = s\<lparr>blocks := (blocks s)[b := None]\<rparr>"

definition put_block :: "nat \<Rightarrow> 'a slot list \<Rightarrow> 'a state \<Rightarrow> 'a state" where
  "put_block b sl s = s\<lparr>blocks := (blocks s)[b := Some sl]\<rparr>"

text \<open>An element type has value semantics when a copy or a move that does not throw
  gives the new object, or the target of the assignment, the value of its source. It
  is \<open>nothrow\<close> when none of its special members throws.\<close>

definition value_semantics :: "'a T_ops \<Rightarrow> bool" where
  "value_semantics T =
     (\<forall>x. (\<forall>y. copy_construct T x = Some y \<longrightarrow> y = x) \<and>
          (\<forall>y x'. move_construct T x = Some (y, x') \<longrightarrow> y = x) \<and>
          (\<forall>d y. copy_assign T d x = Some y \<longrightarrow> y = x) \<and>
          (\<forall>d y x'. move_assign T d x = Some (y, x') \<longrightarrow> y = x))"

definition nothrow :: "'a T_ops \<Rightarrow> bool" where
  "nothrow T =
     (default_construct T \<noteq> None \<and>
      (\<forall>x. copy_construct T x \<noteq> None \<and> move_construct T x \<noteq> None \<and>
           (\<forall>d. copy_assign T d x \<noteq> None \<and> move_assign T d x \<noteq> None)))"

definition residue :: "'a T_ops \<Rightarrow> 'a \<Rightarrow> 'a" where
  "residue T x = (case move_construct T x of Some (y, x') \<Rightarrow> x' | None \<Rightarrow> x)"

text \<open>\<open>relocated T n s s'\<close>: between \<open>s\<close> and \<open>s'\<close> the container made \<open>n\<close>
  calls of the move constructor and none of the copy constructor when the move
  constructor of \<open>T\<close> cannot throw or \<open>T\<close> cannot be copied, and \<open>n\<close> calls of
  the copy constructor and none of the move constructor otherwise.\<close>

definition relocated :: "'a T_ops \<Rightarrow> nat \<Rightarrow> 'a state \<Rightarrow> 'a state \<Rightarrow> bool" where
  "relocated T n s s' =
     (if is_nothrow_move_constructible T \<or> \<not> is_copy_constructible T
      then move_calls s' = move_calls s + n \<and> copy_calls s' = copy_calls s
      else copy_calls s' = copy_calls s + n \<and> move_calls s' = move_calls s)"

text \<open>The next call of \<open>operator new\<close> throws.\<close>

definition new_throws :: "'a state \<Rightarrow> bool" where
  "new_throws s = (case new_fails s of True # fs \<Rightarrow> True | _ \<Rightarrow> False)"

text \<open>
  \<open>owns s v xs\<close>: in state \<open>s\<close> the vector \<open>v\<close> holds the sequence \<open>xs\<close>: its size
  is the length of \<open>xs\<close>, its block (none when the capacity is 0) has \<open>capacity_\<close>
  slots, the first of them hold the values of \<open>xs\<close> in order and the others are raw.
  \<open>holds s a xs\<close> says so of the vector at address \<open>a\<close>.
\<close>

definition block_of :: "'a list \<Rightarrow> nat \<Rightarrow> 'a slot list" where
  "block_of xs cap = map Live xs @ replicate (cap - length xs) Raw"

definition owns :: "'a state \<Rightarrow> Vector \<Rightarrow> 'a list \<Rightarrow> bool" where
  "owns s v xs =
     (size' v = length xs \<and> length xs \<le> capacity' (data' v) \<and>
      (case buffer' (data' v) of
         Null \<Rightarrow> capacity' (data' v) = 0
       | Ptr b i \<Rightarrow> i = 0 \<and> 0 < capacity' (data' v) \<and>
                    block_at s b = Some (block_of xs (capacity' (data' v)))))"

definition holds :: "'a state \<Rightarrow> nat \<Rightarrow> 'a list \<Rightarrow> bool" where
  "holds s a xs = (case vecs s a of None \<Rightarrow> False | Some v \<Rightarrow> owns s v xs)"

text \<open>\<open>cap_of s a\<close> and \<open>size_of s a\<close> read the two members of the vector at \<open>a\<close>
  (0 when there is none).\<close>

definition cap_of :: "'a state \<Rightarrow> nat \<Rightarrow> nat" where
  "cap_of s a = (case vecs s a of None \<Rightarrow> 0 | Some v \<Rightarrow> capacity' (data' v))"

definition size_of :: "'a state \<Rightarrow> nat \<Rightarrow> nat" where
  "size_of s a = (case vecs s a of None \<Rightarrow> 0 | Some v \<Rightarrow> size' v)"

text \<open>The position \<open>begin() + k\<close> of the vector at \<open>a\<close>.\<close>

definition position :: "'a state \<Rightarrow> nat \<Rightarrow> nat \<Rightarrow> ptr option" where
  "position s a k = (case vecs s a of None \<Rightarrow> None | Some v \<Rightarrow> ptr_add (buffer' (data' v)) k)"

subsection \<open>Sequences of push_back and pop_back\<close>

datatype 'a op = Push 'a | Pop

fun apply_ops :: "'a T_ops \<Rightarrow> nat \<Rightarrow> 'a op list \<Rightarrow> 'a state \<Rightarrow> (unit, 'a state) outcome" where
  "apply_ops T a [] s = Return () s"
| "apply_ops T a (Push x # os) s = seq (PushBack T a x s) (\<lambda>_. apply_ops T a os)"
| "apply_ops T a (Pop # os) s = seq (PopBack a s) (\<lambda>_. apply_ops T a os)"

text \<open>The values that survive a sequence of operations, in push order, their counts,
  and whether a sequence never pops from an array of \<open>n\<close> elements that it has
  emptied.\<close>

fun surviving :: "'a list \<Rightarrow> 'a op list \<Rightarrow> 'a list" where
  "surviving xs [] = xs"
| "surviving xs (Push x # os) = surviving (xs @ [x]) os"
| "surviving xs (Pop # os) = surviving (butlast xs) os"

fun pushes :: "'a op list \<Rightarrow> nat" where
  "pushes [] = 0"
| "pushes (Push x # os) = Suc (pushes os)"
| "pushes (Pop # os) = pushes os"

fun pops :: "'a op list \<Rightarrow> nat" where
  "pops [] = 0"
| "pops (Push x # os) = pops os"
| "pops (Pop # os) = Suc (pops os)"

fun never_underflows :: "nat \<Rightarrow> 'a op list \<Rightarrow> bool" where
  "never_underflows n [] = True"
| "never_underflows n (Push x # os) = never_underflows (Suc n) os"
| "never_underflows n (Pop # os) = (0 < n \<and> never_underflows (n - 1) os)"

subsection \<open>Two element types and a start state\<close>

text \<open>A string-like type: no member throws, the move constructor is \<open>noexcept\<close>, and
  a moved-from object is empty. And a type whose copy constructor throws on the value
  13 and whose move constructor is not \<open>noexcept\<close>.\<close>

definition string_ops :: "string T_ops" where
  "string_ops = \<lparr>default_construct = Some [], copy_construct = Some,
     move_construct = (\<lambda>x. Some (x, [])), copy_assign = (\<lambda>d x. Some x),
     move_assign = (\<lambda>d x. Some (x, [])),
     is_nothrow_move_constructible = True, is_copy_constructible = True, sizeof = 32\<rparr>"

definition thrower_ops :: "nat T_ops" where
  "thrower_ops = \<lparr>default_construct = Some 0,
     copy_construct = (\<lambda>x. if x = 13 then None else Some x),
     move_construct = (\<lambda>x. Some (x, 0)), copy_assign = (\<lambda>d x. Some x),
     move_assign = (\<lambda>d x. Some (x, 0)),
     is_nothrow_move_constructible = False, is_copy_constructible = True, sizeof = 4\<rparr>"

text \<open>No block yet, and one default-constructed vector at address 0.\<close>

definition start :: "'a state" where
  "start = \<lparr>blocks = [], vecs = (\<lambda>a. if a = 0 then Some Vector_default else None),
     new_fails = [], leaked = [], copy_calls = 0, move_calls = 0\<rparr>"

text \<open>The state after \<open>push_back("a")\<close>, \<open>push_back("b")\<close>, \<open>push_back("c")\<close> on
  \<open>start\<close>: the blocks of capacity 1 and 2 are freed, the third has capacity 4.\<close>

definition abc :: "string state" where
  "abc = \<lparr>blocks = [None, None, Some [Live ''a'', Live ''b'', Live ''c'', Raw]],
     vecs = (\<lambda>a. if a = 0 then Some \<lparr>data' = \<lparr>buffer' = Ptr 2 0, capacity' = 4\<rparr>, size' = 3\<rparr> else None),
     new_fails = [], leaked = [], copy_calls = 0, move_calls = 3\<rparr>"

text \<open>The state after \<open>push_back("a")\<close>, \<open>push_back("b")\<close> on \<open>start\<close>: the
  array is full, with two elements in a block of capacity 2.\<close>

definition ab :: "string state" where
  "ab = \<lparr>blocks = [None, Some [Live ''a'', Live ''b'']],
     vecs = (\<lambda>a. if a = 0 then Some \<lparr>data' = \<lparr>buffer' = Ptr 1 0, capacity' = 2\<rparr>, size' = 2\<rparr> else None),
     new_fails = [], leaked = [], copy_calls = 0, move_calls = 1\<rparr>"

text \<open>Two arrays of strings: \<open>reserve(4)\<close> and three calls of \<open>push_back\<close> made
  the one at address 0, \<open>reserve(2)\<close> and one \<open>push_back\<close> the one at address 1.\<close>

definition two :: "string state" where
  "two = \<lparr>blocks = [Some [Live ''a'', Live ''b'', Live ''c'', Raw], Some [Live ''x'', Raw]],
     vecs = (\<lambda>a. if a = 0 then Some \<lparr>data' = \<lparr>buffer' = Ptr 0 0, capacity' = 4\<rparr>, size' = 3\<rparr>
                 else if a = 1 then Some \<lparr>data' = \<lparr>buffer' = Ptr 1 0, capacity' = 2\<rparr>, size' = 1\<rparr>
                 else None),
     new_fails = [], leaked = [], copy_calls = 0, move_calls = 0\<rparr>"

text \<open>A full array of the throwing type: \<open>emplace_back(5)\<close> on an empty one.\<close>

definition five :: "nat state" where
  "five = \<lparr>blocks = [Some [Live 5]],
     vecs = (\<lambda>a. if a = 0 then Some \<lparr>data' = \<lparr>buffer' = Ptr 0 0, capacity' = 1\<rparr>, size' = 1\<rparr> else None),
     new_fails = [], leaked = [], copy_calls = 0, move_calls = 0\<rparr>"

lemma seq_simps [simp]:
  "seq (Return r s) f = f r s" "seq (Throw e s) f = Throw e s"
  "seq AssertFail f = AssertFail" "seq Undefined f = Undefined"
  by (simp_all add: seq_def)

lemma unwind_simps [simp]:
  "unwind (Return r s) c = Return r s" "unwind (Throw e s) c = seq (c s) (\<lambda>_ s'. Throw e s')"
  "unwind AssertFail c = AssertFail" "unwind Undefined c = Undefined"
  by (simp_all add: unwind_def)

lemma returns_simps [simp]:
  "returns (Return r s)" "\<not> returns (Throw e s)" "\<not> returns AssertFail" "\<not> returns Undefined"
  by (simp_all add: returns_def)

lemma not_returns_seq_Throw [simp]: "\<not> returns (seq m (\<lambda>_ s'. Throw e s'))"
  by (cases m) simp_all

lemma not_returns_seq: "\<not> returns m \<Longrightarrow> \<not> returns (seq m f)"
  by (cases m) simp_all

lemma not_returns_unwind: "\<not> returns m \<Longrightarrow> \<not> returns (unwind m c)"
  by (cases m) (simp_all add: not_returns_seq)

lemma patch_Nil [simp]: "patch sl i [] = sl"
  by (simp add: patch_def)

lemma length_patch [simp]: "i + length cs \<le> length sl \<Longrightarrow> length (patch sl i cs) = length sl"
  by (simp add: patch_def)

lemma patch_update_front:
  "i < length sl \<Longrightarrow> patch (sl[i := c]) (Suc i) cs = patch sl i (c # cs)"
  by (simp add: patch_def take_Suc_conv_app_nth)

lemma patch_update_back:
  "i + length cs < length sl \<Longrightarrow> patch (sl[i + length cs := c]) i cs = patch sl i (cs @ [c])"
  by (simp add: patch_def drop_update_cancel Cons_nth_drop_Suc[symmetric] upd_conv_take_nth_drop)

lemma nth_patch:
  "i + length cs \<le> length sl \<Longrightarrow> j < length sl \<Longrightarrow>
   patch sl i cs ! j = (if j < i then sl ! j else if j < i + length cs then cs ! (j - i) else sl ! j)"
  by (auto simp: patch_def nth_append)


lemma slots_are_iff:
  "slots_are sl i cs \<longleftrightarrow> i + length cs \<le> length sl \<and> (\<forall>j<length cs. sl ! (i + j) = cs ! j)"
  by (auto simp: slots_are_def list_eq_iff_nth_eq)

lemma slots_are_Nil [simp]: "slots_are sl i [] \<longleftrightarrow> i \<le> length sl"
  by (simp add: slots_are_def)

lemma slots_are_Cons: "slots_are sl i (c # cs) \<longleftrightarrow> i < length sl \<and> sl ! i = c \<and> slots_are sl (Suc i) cs"
  by (cases "i < length sl") (auto simp: slots_are_def Cons_nth_drop_Suc[symmetric])

lemma slots_are_nth: "slots_are sl i cs \<Longrightarrow> j < length cs \<Longrightarrow> sl ! (i + j) = cs ! j"
  by (simp add: slots_are_iff)

lemma slots_are_append:
  "slots_are sl i (cs @ ds) \<longleftrightarrow> slots_are sl i cs \<and> slots_are sl (i + length cs) ds"
proof (induction cs arbitrary: i)
  case Nil
  then show ?case by (auto simp: slots_are_def)
next
  case (Cons c cs)
  then show ?case by (auto simp: slots_are_Cons)
qed

lemma slots_are_snoc:
  "slots_are sl i (cs @ [c]) \<longleftrightarrow> slots_are sl i cs \<and> i + length cs < length sl \<and> sl ! (i + length cs) = c"
  by (auto simp: slots_are_append slots_are_Cons)

lemma slots_are_update_before: "j < i \<Longrightarrow> slots_are (sl[j := c]) i cs = slots_are sl i cs"
  by (simp add: slots_are_def)

lemma slots_are_update_after: "i + length cs \<le> j \<Longrightarrow> slots_are (sl[j := c]) i cs = slots_are sl i cs"
  by (auto simp: slots_are_iff)

lemma slots_are_patch: "i + length cs \<le> length sl \<Longrightarrow> slots_are (patch sl i cs) i cs"
  by (simp add: slots_are_def patch_def)

lemma patch_same: "slots_are sl i cs \<Longrightarrow> patch sl i cs = sl"
  by (metis append_take_drop_id drop_drop patch_def slots_are_def add.commute)

lemma block_at_lt: "block_at s b = Some sl \<Longrightarrow> b < length (blocks s)"
  by (simp add: block_at_def split: if_splits)

lemma block_at_put_block:
  "block_at (put_block b sl s) b' = (if b' = b \<and> b < length (blocks s) then Some sl else block_at s b')"
  by (simp add: block_at_def put_block_def)

lemma put_block_fields [simp]:
  "vecs (put_block b sl s) = vecs s" "new_fails (put_block b sl s) = new_fails s"
  "leaked (put_block b sl s) = leaked s" "copy_calls (put_block b sl s) = copy_calls s"
  "move_calls (put_block b sl s) = move_calls s"
  "length (blocks (put_block b sl s)) = length (blocks s)"
  by (simp_all add: put_block_def)

lemma put_block_twice [simp]: "put_block b sl' (put_block b sl s) = put_block b sl' s"
  by (simp add: put_block_def)

lemma put_block_swap: "b \<noteq> c \<Longrightarrow> put_block b x (put_block c y s) = put_block c y (put_block b x s)"
  by (simp add: put_block_def list_update_swap)

lemma put_block_same: "block_at s b = Some sl \<Longrightarrow> put_block b sl s = s"
proof -
  assume "block_at s b = Some sl"
  then have "blocks s ! b = Some sl" by (simp add: block_at_def split: if_splits)
  then have "(blocks s)[b := Some sl] = blocks s" using list_update_id[of "blocks s" b] by simp
  then show ?thesis by (simp add: put_block_def)
qed

lemma put_block_upd [simp]:
  "put_block b sl (s\<lparr>copy_calls := n\<rparr>) = (put_block b sl s)\<lparr>copy_calls := n\<rparr>"
  "put_block b sl (s\<lparr>move_calls := n\<rparr>) = (put_block b sl s)\<lparr>move_calls := n\<rparr>"
  "put_block b sl (s\<lparr>leaked := l\<rparr>) = (put_block b sl s)\<lparr>leaked := l\<rparr>"
  "put_block b sl (s\<lparr>vecs := vs\<rparr>) = (put_block b sl s)\<lparr>vecs := vs\<rparr>"
  "put_block b sl (s\<lparr>new_fails := fs\<rparr>) = (put_block b sl s)\<lparr>new_fails := fs\<rparr>"
  by (simp_all add: put_block_def)

lemma block_at_upd [simp]:
  "block_at (s\<lparr>copy_calls := n\<rparr>) b = block_at s b"
  "block_at (s\<lparr>move_calls := n\<rparr>) b = block_at s b"
  "block_at (s\<lparr>leaked := l\<rparr>) b = block_at s b"
  "block_at (s\<lparr>vecs := vs\<rparr>) b = block_at s b"
  "block_at (s\<lparr>new_fails := fs\<rparr>) b = block_at s b"
  by (simp_all add: block_at_def)

lemma set_slot_put: "block_at s b = Some sl \<Longrightarrow> set_slot s (Ptr b i) c = put_block b (sl[i := c]) s"
  by (simp add: put_block_def)

lemma slot_at_Some: "block_at s b = Some sl \<Longrightarrow> i < length sl \<Longrightarrow> slot_at s (Ptr b i) = Some (sl ! i)"
  by simp

lemma load_Live: "block_at s b = Some sl \<Longrightarrow> i < length sl \<Longrightarrow> sl ! i = Live x \<Longrightarrow> load s (Ptr b i) = Some x"
  by (simp add: load_def)

lemma placement_new_Raw:
  "block_at s b = Some sl \<Longrightarrow> i < length sl \<Longrightarrow> sl ! i = Raw \<Longrightarrow>
   placement_new (Ptr b i) x s = Return () (put_block b (sl[i := Live x]) s)"
  by (simp add: placement_new_def put_block_def)

lemma destroy_at_Live:
  "block_at s b = Some sl \<Longrightarrow> i < length sl \<Longrightarrow> sl ! i = Live x \<Longrightarrow>
   destroy_at (Ptr b i) s = Return () (put_block b (sl[i := Raw]) s)"
  by (simp add: destroy_at_def put_block_def)

lemma destroy_n_spec:
  "block_at s b = Some sl \<Longrightarrow> slots_are sl i (map Live xs) \<Longrightarrow>
   destroy_n (Ptr b i) (length xs) s = Return () (put_block b (patch sl i (replicate (length xs) Raw)) s)"
proof (induction xs arbitrary: sl i s)
  case Nil
  then show ?case by (simp add: put_block_same)
next
  case (Cons x xs)
  from Cons.prems have i: "i < length sl" and x: "sl ! i = Live x" and rest: "slots_are sl (Suc i) (map Live xs)"
    by (simp_all add: slots_are_Cons)
  have b: "b < length (blocks s)" using Cons.prems(1) by (rule block_at_lt)
  let ?s1 = "put_block b (sl[i := Raw]) s"
  have 1: "block_at ?s1 b = Some (sl[i := Raw])" using b by (simp add: block_at_put_block)
  have 2: "slots_are (sl[i := Raw]) (Suc i) (map Live xs)" using rest by (simp add: slots_are_update_before)
  have step: "destroy_at (Ptr b i) s = Return () ?s1"
    using destroy_at_Live[OF Cons.prems(1) i x] .
  have "destroy_n (Ptr b i) (length (x # xs)) s = destroy_n (Ptr b (Suc i)) (length xs) ?s1"
    by (simp add: step)
  also have "\<dots> = Return () (put_block b (patch (sl[i := Raw]) (Suc i) (replicate (length xs) Raw)) ?s1)"
    by (rule Cons.IH[OF 1 2])
  also have "\<dots> = Return () (put_block b (patch sl i (replicate (length (x # xs)) Raw)) s)"
    by (simp add: patch_update_front[OF i])
  finally show ?case .
qed

lemmas alloc_defs = Allocate_def Deallocate_def operator_new_def operator_delete_def
  RawMemory_ctor_def RawMemory_dtor_def RawMemory_plus_def RawMemory_index_def RawMemory_Swap_def
  live_values_def block_at_def
lemmas elem_defs = placement_new_def construct_at_def destroy_at_def load_def
  uninitialized_copy_n_def uninitialized_move_n_def uninitialized_value_construct_n_def
  move_assign_at_def copy_assign_at_def std_move_def move_backward_def
lemmas vector_defs = this_obj_def set_vec_def Vector_begin_def Vector_end_def
  EmplaceBack_def PushBack_def PopBack_def Emplace_def Insert_def Erase_def
  InsertAndReallocate_def InsertWithoutReallocating_def Reserve_def Resize_def Index_def
  Vector_default_def RawMemory_default_def

lemma abc_reached:
  "seq (PushBack string_ops 0 ''a'' start) (\<lambda>_ s. seq (PushBack string_ops 0 ''b'' s)
     (\<lambda>_. PushBack string_ops 0 ''c'')) = Return () abc"
  by (simp add: alloc_defs elem_defs vector_defs start_def abc_def string_ops_def fun_eq_iff eval_nat_numeral)

text \<open>Claim C9: assigning an array to itself, by copy or by move, and swapping it with
  itself change nothing: the call returns and the whole state, so the size, the capacity
  and every element of the array, is as before.\<close>

theorem self_assignment_is_noop:
  "CopyAssign T a a s = Return () s \<and> MoveAssign a a s = Return () s \<and> Swap a a s = Return () s"
  by (simp add: CopyAssign_def MoveAssign_def Swap_def)

theorem self_assignment_is_noop_witness:
  "CopyAssign string_ops 0 0 abc = Return () abc \<and> MoveAssign 0 0 abc = Return () abc \<and>
   Swap 0 0 abc = Return () abc"
  using self_assignment_is_noop[of string_ops 0 abc] by simp

text \<open>Claim C3 as stated fails: \<open>abc\<close> has three elements and capacity 4, and
  indexing it with 3, which is not below the count, passes the check and returns the
  address of the raw slot.\<close>

theorem index_below_capacity_passes:
  "size_of abc 0 \<le> 3 \<and> Index 0 3 abc = Return (Ptr 2 3) abc"
  by (simp add: abc_def size_of_def Index_def this_obj_def RawMemory_index_def)

text \<open>Claim C1 at a failing input: a vector of the throwing type holds the one
  element 13 in a block of capacity 1, and \<open>push_back(7)\<close> has to grow. The new block
  gets the 7, the copy of 13 throws, the block is freed and the exception goes on: the
  array is as before, and the 7 built in the new block was never destroyed.\<close>

theorem growth_leaks:
  "seq (EmplaceBack thrower_ops 0 (Some 13) start) (\<lambda>_. PushBack thrower_ops 0 7) =
   Throw elem_exn \<lparr>blocks = [Some [Live 13], None],
     vecs = (\<lambda>a. if a = 0 then Some \<lparr>data' = \<lparr>buffer' = Ptr 0 0, capacity' = 1\<rparr>, size' = 1\<rparr> else None),
     new_fails = [], leaked = [7], copy_calls = 1, move_calls = 0\<rparr>"
  by (simp add: alloc_defs elem_defs vector_defs start_def thrower_ops_def fun_eq_iff eval_nat_numeral)

text \<open>Claim C2 at a failing input: \<open>abc\<close> has room, the position is \<open>begin()\<close>,
  and the construction of the staged temporary throws. The handler of \<open>Emplace\<close> passes
  \<open>end()\<close>, a pointer into the middle of the block, to \<open>operator delete\<close>.\<close>

theorem emplace_throw_undefined:
  "position abc 0 0 = Some (Ptr 2 0) \<and> Emplace string_ops 0 (Ptr 2 0) None abc = Undefined"
  by (simp add: alloc_defs elem_defs vector_defs abc_def position_def)


lemma holds_abc: "holds abc 0 [''a'', ''b'', ''c'']"
  by (simp add: holds_def owns_def abc_def block_at_def block_of_def eval_nat_numeral)

text \<open>Claim C3, amended: for an array that holds \<open>xs\<close>, indexing with \<open>i\<close> at or
  beyond the capacity fails the assertion and indexing below the capacity passes it,
  \<open>pop_back\<close> on the empty array fails the assertion, and \<open>erase\<close> at a position
  beyond \<open>end()\<close> fails the assertion.\<close>

theorem debug_checks:
  "holds s a xs \<Longrightarrow>
     (cap_of s a \<le> i \<longrightarrow> Index a i s = AssertFail) \<and>
     (i < cap_of s a \<longrightarrow> (\<exists>p. Index a i s = Return p s)) \<and>
     (xs = [] \<longrightarrow> PopBack a s = AssertFail) \<and>
     (length xs < k \<longrightarrow> position s a k = Some pos \<longrightarrow> Erase T a pos s = AssertFail)"
proof -
  assume h: "holds s a xs"
  then obtain v where v: "vecs s a = Some v" and o: "owns s v xs"
    by (auto simp: holds_def split: option.splits)
  have 1: "cap_of s a \<le> i \<longrightarrow> Index a i s = AssertFail"
    using v by (simp add: cap_of_def Index_def this_obj_def RawMemory_index_def)
  have 2: "i < cap_of s a \<longrightarrow> (\<exists>p. Index a i s = Return p s)"
    using v o by (cases "buffer' (data' v)")
      (auto simp: cap_of_def Index_def this_obj_def RawMemory_index_def owns_def)
  have 3: "xs = [] \<longrightarrow> PopBack a s = AssertFail"
    using v o by (simp add: PopBack_def this_obj_def owns_def)
  have 4: "length xs < k \<longrightarrow> position s a k = Some pos \<longrightarrow> Erase T a pos s = AssertFail"
  proof (intro impI)
    assume k: "length xs < k" and p: "position s a k = Some pos"
    show "Erase T a pos s = AssertFail"
    proof (cases "buffer' (data' v)")
      case Null
      with p v k show ?thesis by (cases k) (simp_all add: position_def)
    next
      case (Ptr b j)
      with p v k o show ?thesis
        by (auto simp: position_def owns_def Erase_def Vector_begin_def Vector_end_def
            this_obj_def RawMemory_plus_def)
    qed
  qed
  from 1 2 3 4 show ?thesis by blast
qed

lemma holds_start: "holds start 0 []"
  by (simp add: holds_def owns_def start_def Vector_default_def RawMemory_default_def)

theorem debug_checks_witness:
  "holds abc 0 [''a'', ''b'', ''c''] \<and> Index 0 4 abc = AssertFail \<and>
   (\<exists>p. Index 0 3 abc = Return p abc) \<and>
   position abc 0 4 = Some (Ptr 2 4) \<and> Erase string_ops 0 (Ptr 2 4) abc = AssertFail \<and>
   holds (start :: string state) 0 [] \<and> PopBack 0 (start :: string state) = AssertFail"
  using debug_checks[OF holds_abc, of 4 4 "Ptr 2 4" string_ops]
    debug_checks[OF holds_abc, of 3 4 "Ptr 2 4" string_ops] holds_abc
    debug_checks[OF holds_start, of 0 0 Null string_ops] holds_start
  by (simp add: cap_of_def position_def abc_def)

lemma patch_update_inside:
  "i \<le> j \<Longrightarrow> j < i + length cs \<Longrightarrow> patch (sl[j := c]) i cs = patch sl i cs"
  by (simp add: patch_def)

lemma nothrowD:
  "nothrow T \<Longrightarrow> copy_construct T x \<noteq> None \<and> move_construct T x \<noteq> None \<and>
     copy_assign T d x \<noteq> None \<and> move_assign T d x \<noteq> None \<and> default_construct T \<noteq> None"
  by (simp add: nothrow_def)

lemma state_copy_calls_id [simp]: "s\<lparr>copy_calls := copy_calls s\<rparr> = s"
  by simp

lemma uninitialized_copy_loop_spec:
  assumes vs: "value_semantics T"
  shows "block_at s bo = Some so \<Longrightarrow> slots_are so io (map Live xs) \<Longrightarrow>
    block_at s bn = Some sn \<Longrightarrow> bo \<noteq> bn \<Longrightarrow> slots_are sn jn (replicate (length xs) Raw) \<Longrightarrow>
    uninitialized_copy_loop T (Ptr bo io) d (Ptr bn jn) k (length xs) s =
      Return () ((put_block bn (patch sn jn (map Live xs)) s)\<lparr>copy_calls := copy_calls s + length xs\<rparr>)
    \<or> (\<not> returns (uninitialized_copy_loop T (Ptr bo io) d (Ptr bn jn) k (length xs) s) \<and> \<not> nothrow T)"
proof (induction xs arbitrary: s sn io jn k)
  case Nil
  then show ?case by (simp add: put_block_same)
next
  case (Cons x xs)
  from Cons.prems(2) have io: "io < length so" and x: "so ! io = Live x"
    and rest: "slots_are so (Suc io) (map Live xs)"
    by (simp_all add: slots_are_Cons)
  from Cons.prems(5) have jn: "jn < length sn" and raw: "sn ! jn = Raw"
    and rest': "slots_are sn (Suc jn) (replicate (length xs) Raw)"
    by (simp_all add: slots_are_Cons)
  have ld: "load s (Ptr bo io) = Some x"
    using load_Live[OF Cons.prems(1) io x] .
  show ?case
  proof (cases "copy_construct T x")
    case None
    then have "\<not> nothrow T" using nothrowD[of T x] by auto
    moreover have "\<not> returns (uninitialized_copy_loop T (Ptr bo io) d (Ptr bn jn) k (length (x # xs)) s)"
      using None ld by simp
    ultimately show ?thesis by blast
  next
    case (Some y)
    with vs have y: "y = x" by (auto simp: value_semantics_def)
    let ?s0 = "s\<lparr>copy_calls := Suc (copy_calls s)\<rparr>"
    let ?s1 = "put_block bn (sn[jn := Live x]) ?s0"
    have bn: "bn < length (blocks s)" using Cons.prems(3) by (rule block_at_lt)
    have pn: "placement_new (Ptr bn jn) x ?s0 = Return () ?s1"
      by (rule placement_new_Raw[where sl = sn]) (use Cons.prems(3) jn raw in simp_all)
    have step: "uninitialized_copy_loop T (Ptr bo io) d (Ptr bn jn) k (length (x # xs)) s =
      uninitialized_copy_loop T (Ptr bo (Suc io)) d (Ptr bn (Suc jn)) (Suc k) (length xs) ?s1"
      using Some y ld pn by simp
    have 1: "block_at ?s1 bo = Some so"
      using Cons.prems(1,4) by (simp add: block_at_put_block)
    have 3: "block_at ?s1 bn = Some (sn[jn := Live x])"
      using bn by (simp add: block_at_put_block)
    have 5: "slots_are (sn[jn := Live x]) (Suc jn) (replicate (length xs) Raw)"
      using rest' by (simp add: slots_are_update_before)
    from Cons.IH[OF 1 rest 3 Cons.prems(4) 5, where k = "Suc k"]
    show ?thesis
    proof
      assume "uninitialized_copy_loop T (Ptr bo (Suc io)) d (Ptr bn (Suc jn)) (Suc k) (length xs) ?s1 =
        Return () ((put_block bn (patch (sn[jn := Live x]) (Suc jn) (map Live xs)) ?s1)
          \<lparr>copy_calls := copy_calls ?s1 + length xs\<rparr>)"
      then have "uninitialized_copy_loop T (Ptr bo io) d (Ptr bn jn) k (length (x # xs)) s =
        Return () ((put_block bn (patch sn jn (map Live (x # xs))) s)
          \<lparr>copy_calls := copy_calls s + length (x # xs)\<rparr>)"
        unfolding step by (simp add: patch_update_front[OF jn])
      then show ?thesis by blast
    next
      assume "\<not> returns (uninitialized_copy_loop T (Ptr bo (Suc io)) d (Ptr bn (Suc jn)) (Suc k) (length xs) ?s1)
        \<and> \<not> nothrow T"
      then show ?thesis unfolding step by blast
    qed
  qed
qed


lemma put_block_4:
  "bo \<noteq> bn \<Longrightarrow> put_block bn A (put_block bo B (put_block bn C (put_block bo D s))) =
     put_block bn A (put_block bo B s)"
  by (simp add: put_block_swap[of bo bn])

lemma uninitialized_move_loop_spec:
  assumes vs: "value_semantics T"
  shows "block_at s bo = Some so \<Longrightarrow> slots_are so io (map Live xs) \<Longrightarrow>
    block_at s bn = Some sn \<Longrightarrow> bo \<noteq> bn \<Longrightarrow> slots_are sn jn (replicate (length xs) Raw) \<Longrightarrow>
    uninitialized_move_loop T (Ptr bo io) d (Ptr bn jn) k (length xs) s =
      Return () ((put_block bn (patch sn jn (map Live xs))
                   (put_block bo (patch so io (map (\<lambda>x. Live (residue T x)) xs)) s))
                 \<lparr>move_calls := move_calls s + length xs\<rparr>)
    \<or> (\<not> returns (uninitialized_move_loop T (Ptr bo io) d (Ptr bn jn) k (length xs) s) \<and> \<not> nothrow T)"
proof (induction xs arbitrary: s so sn io jn k)
  case Nil
  then show ?case by (simp add: put_block_same)
next
  case (Cons x xs)
  from Cons.prems(2) have io: "io < length so" and x: "so ! io = Live x"
    and rest: "slots_are so (Suc io) (map Live xs)"
    by (simp_all add: slots_are_Cons)
  from Cons.prems(5) have jn: "jn < length sn" and raw: "sn ! jn = Raw"
    and rest': "slots_are sn (Suc jn) (replicate (length xs) Raw)"
    by (simp_all add: slots_are_Cons)
  have ld: "load s (Ptr bo io) = Some x"
    using load_Live[OF Cons.prems(1) io x] .
  have bo: "bo < length (blocks s)" using Cons.prems(1) by (rule block_at_lt)
  have bn: "bn < length (blocks s)" using Cons.prems(3) by (rule block_at_lt)
  show ?case
  proof (cases "move_construct T x")
    case None
    then have "\<not> nothrow T" using nothrowD[of T x] by auto
    moreover have "\<not> returns (uninitialized_move_loop T (Ptr bo io) d (Ptr bn jn) k (length (x # xs)) s)"
      using None ld by simp
    ultimately show ?thesis by blast
  next
    case (Some yx)
    obtain y x' where yx: "yx = (y, x')" by (cases yx)
    with Some vs have y: "y = x" by (auto simp: value_semantics_def)
    have res: "residue T x = x'" using Some yx by (simp add: residue_def)
    let ?so1 = "so[io := Live x']"
    let ?sn1 = "sn[jn := Live x]"
    let ?s0 = "(put_block bo ?so1 s)\<lparr>move_calls := Suc (move_calls s)\<rparr>"
    let ?s1 = "put_block bn ?sn1 ?s0"
    have ss: "(set_slot s (Ptr bo io) (Live x'))\<lparr>move_calls := Suc (move_calls s)\<rparr> = ?s0"
      using set_slot_put[OF Cons.prems(1)] by simp
    have bn0: "block_at ?s0 bn = Some sn"
      using Cons.prems(3,4) by (simp add: block_at_put_block)
    have pn: "placement_new (Ptr bn jn) x ?s0 = Return () ?s1"
      using placement_new_Raw[OF bn0 jn raw] .
    have step: "uninitialized_move_loop T (Ptr bo io) d (Ptr bn jn) k (length (x # xs)) s =
      uninitialized_move_loop T (Ptr bo (Suc io)) d (Ptr bn (Suc jn)) (Suc k) (length xs) ?s1"
      using Some yx y ld pn ss by simp
    have 1: "block_at ?s1 bo = Some ?so1"
      using Cons.prems(4) bo by (simp add: block_at_put_block)
    have 2: "slots_are ?so1 (Suc io) (map Live xs)"
      using rest by (simp add: slots_are_update_before)
    have 3: "block_at ?s1 bn = Some ?sn1"
      using bn by (simp add: block_at_put_block)
    have 5: "slots_are ?sn1 (Suc jn) (replicate (length xs) Raw)"
      using rest' by (simp add: slots_are_update_before)
    from Cons.IH[OF 1 2 3 Cons.prems(4) 5, where k = "Suc k"]
    show ?thesis
    proof
      assume "uninitialized_move_loop T (Ptr bo (Suc io)) d (Ptr bn (Suc jn)) (Suc k) (length xs) ?s1 =
        Return () ((put_block bn (patch ?sn1 (Suc jn) (map Live xs))
                     (put_block bo (patch ?so1 (Suc io) (map (\<lambda>x. Live (residue T x)) xs)) ?s1))
          \<lparr>move_calls := move_calls ?s1 + length xs\<rparr>)"
      then have "uninitialized_move_loop T (Ptr bo io) d (Ptr bn jn) k (length (x # xs)) s =
        Return () ((put_block bn (patch sn jn (map Live (x # xs)))
                     (put_block bo (patch so io (map (\<lambda>x. Live (residue T x)) (x # xs))) s))
          \<lparr>move_calls := move_calls s + length (x # xs)\<rparr>)"
        unfolding step
        by (simp add: patch_update_front[OF jn] patch_update_front[OF io] res
            put_block_4[OF Cons.prems(4)])
      then show ?thesis by blast
    next
      assume "\<not> returns (uninitialized_move_loop T (Ptr bo (Suc io)) d (Ptr bn (Suc jn)) (Suc k) (length xs) ?s1)
        \<and> \<not> nothrow T"
      then show ?thesis unfolding step by blast
    qed
  qed
qed

lemma returns_iff: "returns m \<longleftrightarrow> (\<exists>r s. m = Return r s)"
  by (cases m) simp_all

lemma not_returns_neq: "\<not> returns m \<Longrightarrow> m \<noteq> Return r s"
  by (auto simp: returns_iff)

lemma operator_new_ok:
  "\<not> new_throws s \<Longrightarrow> operator_new n s = Return (Ptr (length (blocks s)) 0) (add_block n s)"
  by (auto simp: operator_new_def new_throws_def add_block_def split: list.splits bool.splits)

lemma operator_new_throws: "new_throws s \<Longrightarrow> \<not> returns (operator_new n s)"
  by (auto simp: operator_new_def new_throws_def split: list.splits bool.splits)

lemma block_at_add_block:
  "block_at (add_block n s) b = (if b = length (blocks s) then Some (replicate n Raw) else block_at s b)"
  by (auto simp: block_at_def add_block_def nth_append)

lemma add_block_fields [simp]:
  "vecs (add_block n s) = vecs s" "leaked (add_block n s) = leaked s"
  "copy_calls (add_block n s) = copy_calls s" "move_calls (add_block n s) = move_calls s"
  "length (blocks (add_block n s)) = Suc (length (blocks s))"
  "new_fails (add_block n s) = tl (new_fails s)"
  by (simp_all add: add_block_def)

lemma block_of_slots:
  "length xs \<le> cap \<Longrightarrow> slots_are (block_of xs cap) 0 (map Live xs)"
  "length xs \<le> cap \<Longrightarrow> slots_are (block_of xs cap) (length xs) (replicate (cap - length xs) Raw)"
  by (simp_all add: slots_are_def block_of_def)

lemma length_block_of [simp]: "length xs \<le> cap \<Longrightarrow> length (block_of xs cap) = cap"
  by (simp add: block_of_def)

lemma block_of_full [simp]: "block_of xs (length xs) = map Live xs"
  by (simp add: block_of_def)

lemma block_of_Nil [simp]: "block_of [] cap = replicate cap Raw"
  by (simp add: block_of_def)

lemma patch_all: "length cs = length sl \<Longrightarrow> patch sl 0 cs = cs"
  by (simp add: patch_def)

lemma owns_NullD: "owns s v xs \<Longrightarrow> buffer' (data' v) = Null \<Longrightarrow> xs = [] \<and> capacity' (data' v) = 0 \<and> size' v = 0"
  by (auto simp: owns_def)

lemma owns_PtrD:
  "owns s v xs \<Longrightarrow> buffer' (data' v) = Ptr b i \<Longrightarrow>
   i = 0 \<and> size' v = length xs \<and> length xs \<le> capacity' (data' v) \<and> 0 < capacity' (data' v) \<and>
   block_at s b = Some (block_of xs (capacity' (data' v)))"
  by (simp add: owns_def)

lemma owns_nonempty_Ptr:
  "owns s v xs \<Longrightarrow> xs \<noteq> [] \<Longrightarrow> \<exists>b. buffer' (data' v) = Ptr b 0"
  by (cases "buffer' (data' v)") (auto simp: owns_def)

lemma owns_frame:
  "owns s v xs \<Longrightarrow> (\<And>b i. buffer' (data' v) = Ptr b i \<Longrightarrow> block_at s' b = block_at s b) \<Longrightarrow> owns s' v xs"
  by (cases "buffer' (data' v)") (auto simp: owns_def)

lemma Allocate_ok:
  "0 < n \<Longrightarrow> \<not> new_throws s \<Longrightarrow> Allocate n s = Return (Ptr (length (blocks s)) 0) (add_block n s)"
  by (simp add: Allocate_def operator_new_ok)

lemma RawMemory_ctor_ok:
  "0 < n \<Longrightarrow> \<not> new_throws s \<Longrightarrow>
   RawMemory_ctor n s = Return \<lparr>buffer' = Ptr (length (blocks s)) 0, capacity' = n\<rparr> (add_block n s)"
  by (simp add: RawMemory_ctor_def Allocate_ok)

lemma RawMemory_ctor_throws: "0 < n \<Longrightarrow> new_throws s \<Longrightarrow> \<not> returns (RawMemory_ctor n s)"
  by (simp add: RawMemory_ctor_def Allocate_def operator_new_throws not_returns_seq)

lemma RawMemory_ctor_0: "RawMemory_ctor 0 s = Return \<lparr>buffer' = Null, capacity' = 0\<rparr> s"
  by (simp add: RawMemory_ctor_def Allocate_def)

text \<open>Claim C10: the copy constructor, when it returns, gives a vector with the size and
  the elements of its source, in order, and with a capacity equal to that size, whatever
  the capacity of the source; the source is as before. It returns when no member of
  \<open>T\<close> throws and \<open>operator new\<close> does not.\<close>

theorem copy_constructor:
  assumes vs: "value_semantics T" and o: "owns s v xs"
  shows "(\<forall>v' s'. Vector_copy T v s = Return v' s' \<longrightarrow>
            owns s' v' xs \<and> size' v' = size' v \<and> capacity' (data' v') = size' v \<and> owns s' v xs)
         \<and> (nothrow T \<and> \<not> new_throws s \<longrightarrow> returns (Vector_copy T v s))"
proof (cases "xs = []")
  case True
  with o have sz: "size' v = 0" by (simp add: owns_def)
  have "Vector_copy T v s = Return \<lparr>data' = \<lparr>buffer' = Null, capacity' = 0\<rparr>, size' = 0\<rparr> s"
    by (simp add: Vector_copy_def sz RawMemory_ctor_0 uninitialized_copy_n_def)
  with True o sz show ?thesis by (auto simp: owns_def)
next
  case False
  from owns_nonempty_Ptr[OF o False] obtain bo where buf: "buffer' (data' v) = Ptr bo 0" ..
  from owns_PtrD[OF o buf] have sz: "size' v = length xs" and cap: "length xs \<le> capacity' (data' v)"
    and blk: "block_at s bo = Some (block_of xs (capacity' (data' v)))" by simp_all
  let ?n = "length xs"
  let ?cap = "capacity' (data' v)"
  from False have n: "0 < ?n" by simp
  show ?thesis
  proof (cases "new_throws s")
    case True
    have "\<not> returns (Vector_copy T v s)"
      unfolding Vector_copy_def sz by (rule not_returns_seq) (rule RawMemory_ctor_throws[OF n True])
    with True show ?thesis by (auto simp: returns_iff)
  next
    case nt: False
    let ?bn = "length (blocks s)"
    let ?s1 = "add_block ?n s"
    let ?d = "\<lparr>buffer' = Ptr ?bn 0, capacity' = ?n\<rparr>"
    let ?loop = "uninitialized_copy_n T (Ptr bo 0) ?n (Ptr ?bn 0) ?s1"
    have bo: "bo < ?bn" using blk by (rule block_at_lt)
    have vc: "Vector_copy T v s =
      seq (unwind ?loop (RawMemory_dtor ?d)) (\<lambda>_. Return \<lparr>data' = ?d, size' = ?n\<rparr>)"
      by (simp add: Vector_copy_def sz buf RawMemory_ctor_ok[OF n nt])
    have 1: "block_at ?s1 bo = Some (block_of xs ?cap)"
      using blk bo by (simp add: block_at_add_block)
    have 3: "block_at ?s1 ?bn = Some (replicate ?n Raw)"
      by (simp add: block_at_add_block)
    have 4: "bo \<noteq> ?bn" using bo by simp
    have 5: "slots_are (replicate ?n Raw) 0 (replicate ?n Raw)"
      by (simp add: slots_are_def)
    from uninitialized_copy_loop_spec[OF vs 1 block_of_slots(1)[OF cap] 3 4 5, of "Ptr ?bn 0" 0]
    show ?thesis
    proof
      assume "uninitialized_copy_loop T (Ptr bo 0) (Ptr ?bn 0) (Ptr ?bn 0) 0 ?n ?s1 =
        Return () ((put_block ?bn (patch (replicate ?n Raw) 0 (map Live xs)) ?s1)
          \<lparr>copy_calls := copy_calls ?s1 + ?n\<rparr>)"
      then have eq: "Vector_copy T v s = Return \<lparr>data' = ?d, size' = ?n\<rparr>
        ((put_block ?bn (map Live xs) ?s1)\<lparr>copy_calls := copy_calls s + ?n\<rparr>)"
        unfolding vc uninitialized_copy_n_def by (simp add: patch_all)
      let ?s2 = "(put_block ?bn (map Live xs) ?s1)\<lparr>copy_calls := copy_calls s + ?n\<rparr>"
      have a: "owns ?s2 \<lparr>data' = ?d, size' = ?n\<rparr> xs"
        using n by (simp add: owns_def block_at_put_block)
      have b: "owns ?s2 v xs"
        using o buf 4 1 by (simp add: owns_def block_at_put_block)
      from eq a b sz show ?thesis by simp
    next
      assume "\<not> returns (uninitialized_copy_loop T (Ptr bo 0) (Ptr ?bn 0) (Ptr ?bn 0) 0 ?n ?s1) \<and> \<not> nothrow T"
      then have "\<not> returns (Vector_copy T v s)" and "\<not> nothrow T"
        unfolding vc uninitialized_copy_n_def by (simp_all add: not_returns_seq not_returns_unwind)
      then show ?thesis by (auto simp: returns_iff)
    qed
  qed
qed


lemma value_semantics_string: "value_semantics string_ops"
  by (simp add: value_semantics_def string_ops_def)

lemma nothrow_string: "nothrow string_ops"
  by (simp add: nothrow_def string_ops_def)

lemma owns_abc:
  "owns abc \<lparr>data' = \<lparr>buffer' = Ptr 2 0, capacity' = 4\<rparr>, size' = 3\<rparr> [''a'', ''b'', ''c'']"
  by (simp add: owns_def abc_def block_at_def block_of_def eval_nat_numeral)

theorem copy_constructor_witness:
  "value_semantics string_ops \<and> nothrow string_ops \<and> \<not> new_throws abc \<and>
   owns abc \<lparr>data' = \<lparr>buffer' = Ptr 2 0, capacity' = 4\<rparr>, size' = 3\<rparr> [''a'', ''b'', ''c''] \<and>
   (\<exists>v' s'. Vector_copy string_ops \<lparr>data' = \<lparr>buffer' = Ptr 2 0, capacity' = 4\<rparr>, size' = 3\<rparr> abc
               = Return v' s' \<and>
            owns s' v' [''a'', ''b'', ''c''] \<and> size' v' = 3 \<and> capacity' (data' v') = 3)"
proof -
  have nt: "\<not> new_throws abc" by (simp add: new_throws_def abc_def)
  from copy_constructor[OF value_semantics_string owns_abc] nothrow_string nt
  show ?thesis using value_semantics_string owns_abc by (auto simp: returns_iff)
qed

lemma state_move_calls_id [simp]: "s\<lparr>move_calls := move_calls s\<rparr> = s"
  by simp

lemma relocate_spec:
  assumes vs: "value_semantics T"
    and so: "block_at s bo = Some so" and src: "slots_are so io (map Live xs)"
    and sn: "block_at s bn = Some sn" and ne: "bo \<noteq> bn"
    and dst: "slots_are sn jn (replicate (length xs) Raw)"
  shows "(if D then uninitialized_move_n T (Ptr bo io) (length xs) (Ptr bn jn) s
          else uninitialized_copy_n T (Ptr bo io) (length xs) (Ptr bn jn) s) =
      Return () ((put_block bn (patch sn jn (map Live xs))
                   (put_block bo (patch so io (map Live (if D then map (residue T) xs else xs))) s))
                 \<lparr>copy_calls := copy_calls s + (if D then 0 else length xs),
                  move_calls := move_calls s + (if D then length xs else 0)\<rparr>)
    \<or> (\<not> returns (if D then uninitialized_move_n T (Ptr bo io) (length xs) (Ptr bn jn) s
          else uninitialized_copy_n T (Ptr bo io) (length xs) (Ptr bn jn) s) \<and> \<not> nothrow T)"
proof (cases D)
  case True
  from uninitialized_move_loop_spec[OF vs so src sn ne dst, of "Ptr bn jn" 0]
  show ?thesis using True by (auto simp: uninitialized_move_n_def comp_def)
next
  case False
  have same: "put_block bo (patch so io (map Live xs)) s = s"
    using patch_same[OF src] put_block_same[OF so] by simp
  from uninitialized_copy_loop_spec[OF vs so src sn ne dst, of "Ptr bn jn" 0]
  show ?thesis using False by (auto simp: uninitialized_copy_n_def same)
qed

lemma live_values_replicate_Raw [simp]: "live_values (replicate n Raw) = []"
  by (induction n) (simp_all add: live_values_def)

lemma operator_delete_raw:
  "block_at s b = Some (replicate n Raw) \<Longrightarrow> operator_delete (Ptr b 0) s = Return () (free_block b s)"
  by (simp add: operator_delete_def free_block_def)

lemma block_at_free_block:
  "block_at (free_block b s) b' = (if b' = b then None else block_at s b')"
  by (auto simp: block_at_def free_block_def)

lemma free_block_fields [simp]:
  "vecs (free_block b s) = vecs s" "new_fails (free_block b s) = new_fails s"
  "leaked (free_block b s) = leaked s" "copy_calls (free_block b s) = copy_calls s"
  "move_calls (free_block b s) = move_calls s"
  "length (blocks (free_block b s)) = length (blocks s)"
  by (simp_all add: free_block_def)

lemma set_vec_fields [simp]:
  "vecs (set_vec a v s) = (vecs s)(a \<mapsto> v)" "new_fails (set_vec a v s) = new_fails s"
  "leaked (set_vec a v s) = leaked s" "copy_calls (set_vec a v s) = copy_calls s"
  "move_calls (set_vec a v s) = move_calls s" "blocks (set_vec a v s) = blocks s"
  by (simp_all add: set_vec_def)

lemma block_at_set_vec [simp]: "block_at (set_vec a v s) b = block_at s b"
  by (simp add: block_at_def)

lemma patch_block_of_Raw:
  "length xs \<le> cap \<Longrightarrow> patch (block_of xs cap) 0 (replicate (length xs) Raw) = replicate cap Raw"
  by (simp add: patch_def block_of_def replicate_add[symmetric])

lemma patch_patch:
  "length cs = length ds \<Longrightarrow> i + length cs \<le> length sl \<Longrightarrow> patch (patch sl i cs) i ds = patch sl i ds"
  by (simp add: patch_def)

lemma patch_block_of_map:
  "length zs = length xs \<Longrightarrow> length xs \<le> cap \<Longrightarrow>
   patch (block_of xs cap) 0 (map Live zs) = block_of zs cap"
  by (simp add: patch_def block_of_def)

lemma block_of_snoc:
  "length xs < cap \<Longrightarrow> (block_of xs cap)[length xs := Live x] = block_of (xs @ [x]) cap"
  by (simp add: block_of_def list_update_append replicate_app_Cons_same
      upd_conv_take_nth_drop Suc_diff_Suc[symmetric] del: replicate_Suc)

lemma returns_seq_False [simp]: "\<not> returns m \<Longrightarrow> returns (seq m f) = False"
  by (simp add: not_returns_seq)

lemma returns_unwind_False [simp]: "\<not> returns m \<Longrightarrow> returns (unwind m c) = False"
  by (simp add: not_returns_unwind)

lemma RawMemory_all_upd [simp]:
  "(m :: RawMemory)\<lparr>buffer' := p, capacity' := c\<rparr> = \<lparr>buffer' = p, capacity' = c\<rparr>"
  by (cases m) simp

lemma Vector_all_upd [simp]:
  "(v :: Vector)\<lparr>data' := d, size' := n\<rparr> = \<lparr>data' = d, size' = n\<rparr>"
  by (cases v) simp

lemma owns_room_Ptr:
  "owns s v xs \<Longrightarrow> 0 < capacity' (data' v) \<Longrightarrow> \<exists>b. buffer' (data' v) = Ptr b 0"
  by (cases "buffer' (data' v)") (auto simp: owns_def)

lemma block_of_nth_Raw: "length xs \<le> i \<Longrightarrow> i < cap \<Longrightarrow> block_of xs cap ! i = Raw"
  by (simp add: block_of_def nth_append)

lemma EmplaceBack_in_place:
  assumes v: "vecs s a = Some v" and o: "owns s v xs" and room: "length xs < capacity' (data' v)"
    and buf: "buffer' (data' v) = Ptr b i"
  shows "EmplaceBack T a (Some x) s = Return (Ptr b (length xs))
           (set_vec a (v\<lparr>size' := Suc (length xs)\<rparr>)
              (put_block b (block_of (xs @ [x]) (capacity' (data' v))) s))"
    and "EmplaceBack T a None s = Throw elem_exn s"
proof -
  from owns_PtrD[OF o buf] have i: "i = 0" and sz: "size' v = length xs"
    and blk: "block_at s b = Some (block_of xs (capacity' (data' v)))" by simp_all
  have len: "length xs < length (block_of xs (capacity' (data' v)))" using room by simp
  have raw: "block_of xs (capacity' (data' v)) ! length xs = Raw"
    using room by (simp add: block_of_nth_Raw)
  have pn: "placement_new (Ptr b (length xs)) x s =
    Return () (put_block b (block_of (xs @ [x]) (capacity' (data' v))) s)"
    using placement_new_Raw[OF blk len raw] room by (simp add: block_of_snoc)
  show "EmplaceBack T a (Some x) s = Return (Ptr b (length xs))
           (set_vec a (v\<lparr>size' := Suc (length xs)\<rparr>)
              (put_block b (block_of (xs @ [x]) (capacity' (data' v))) s))"
    using room by (simp add: EmplaceBack_def this_obj_def v sz buf i RawMemory_plus_def
        construct_at_def pn RawMemory_index_def)
  show "EmplaceBack T a None s = Throw elem_exn s"
    using room by (simp add: EmplaceBack_def this_obj_def v sz buf i RawMemory_plus_def
        construct_at_def)
qed


lemma patch_fresh_snoc:
  "length xs < c \<Longrightarrow>
   patch ((replicate c Raw)[length xs := Live x]) 0 (map Live xs) = block_of (xs @ [x]) c"
  by (simp add: patch_def block_of_def drop_update_cancel upd_conv_take_nth_drop
      Cons_nth_drop_Suc[symmetric] Suc_diff_Suc[symmetric] del: replicate_Suc)

lemma EmplaceBack_grow:
  assumes vs: "value_semantics T" and v: "vecs s a = Some v" and o: "owns s v xs"
    and full: "length xs = capacity' (data' v)"
  shows "(\<exists>x s'. mk = Some x \<and>
            EmplaceBack T a mk s = Return (Ptr (length (blocks s)) (length xs)) s' \<and>
            vecs s' = (vecs s)(a \<mapsto> \<lparr>data' = \<lparr>buffer' = Ptr (length (blocks s)) 0,
                 capacity' = (if length xs = 0 then 1 else length xs * 2)\<rparr>, size' = Suc (length xs)\<rparr>) \<and>
            block_at s' (length (blocks s)) =
              Some (block_of (xs @ [x]) (if length xs = 0 then 1 else length xs * 2)) \<and>
            new_fails s' = tl (new_fails s) \<and> leaked s' = leaked s \<and>
            copy_calls s' = copy_calls s +
              (if is_nothrow_move_constructible T \<or> \<not> is_copy_constructible T then 0 else length xs) \<and>
            move_calls s' = move_calls s +
              (if is_nothrow_move_constructible T \<or> \<not> is_copy_constructible T then length xs else 0))
         \<or> (\<not> returns (EmplaceBack T a mk s) \<and> (mk = None \<or> \<not> nothrow T \<or> new_throws s))"
proof (cases "xs = []")
  case True
  let ?bn = "length (blocks s)"
  let ?nd = "\<lparr>buffer' = Ptr ?bn 0, capacity' = Suc 0\<rparr>"
  from o True full have sz: "size' v = 0" and cap0: "capacity' (data' v) = 0"
    and buf: "buffer' (data' v) = Null"
    by (auto simp: owns_def split: ptr.splits)
  show ?thesis
  proof (cases "new_throws s")
    case nt: True
    have "\<not> returns (EmplaceBack T a mk s)"
      using RawMemory_ctor_throws[OF _ nt, of "Suc 0"]
      by (simp add: EmplaceBack_def this_obj_def v sz cap0)
    with nt show ?thesis by blast
  next
    case nt: False
    note ctor = RawMemory_ctor_ok[OF _ nt, of "Suc 0", simplified]
    show ?thesis
    proof (cases mk)
      case None
      have "\<not> returns (EmplaceBack T a mk s)"
        by (simp add: EmplaceBack_def this_obj_def v sz cap0 ctor None
            RawMemory_plus_def construct_at_def)
      with None show ?thesis by blast
    next
      case (Some x)
      let ?s2 = "put_block ?bn [Live x] (add_block (Suc 0) s)"
      have bn1: "block_at (add_block (Suc 0) s) ?bn = Some (replicate (Suc 0) Raw)"
        by (simp only: block_at_add_block) simp
      have pn: "placement_new (Ptr ?bn 0) x (add_block (Suc 0) s) = Return () ?s2"
        using placement_new_Raw[OF bn1, of 0 x] by simp
      have eq: "EmplaceBack T a mk s = Return (Ptr ?bn 0)
        (set_vec a \<lparr>data' = ?nd, size' = Suc 0\<rparr> (set_vec a (v\<lparr>data' := ?nd\<rparr>) ?s2))"
        using pn
        by (simp add: EmplaceBack_def this_obj_def v sz cap0 buf ctor Some RawMemory_plus_def
            construct_at_def uninitialized_move_n_def uninitialized_copy_n_def
            RawMemory_Swap_def RawMemory_dtor_def Deallocate_def operator_delete_def
            RawMemory_index_def)
      show ?thesis
        using True Some eq by (simp add: block_at_put_block block_of_def)
    qed
  qed
next
  case False
  let ?n = "length xs"
  let ?nc = "?n * 2"
  let ?bn = "length (blocks s)"
  let ?s1 = "add_block ?nc s"
  let ?nd = "\<lparr>buffer' = Ptr ?bn 0, capacity' = ?nc\<rparr>"
  let ?D = "is_nothrow_move_constructible T \<or> \<not> is_copy_constructible T"
  from o have sz: "size' v = ?n" by (simp add: owns_def)
  have n: "0 < ?n" using False by simp
  then have pos: "0 < ?nc" by simp
  show ?thesis
  proof (cases "new_throws s")
    case nt: True
    have "\<not> returns (EmplaceBack T a mk s)"
      using RawMemory_ctor_throws[OF pos nt] n
      by (simp add: EmplaceBack_def this_obj_def v sz full[symmetric])
    with nt show ?thesis by blast
  next
    case nt: False
    note ctor = RawMemory_ctor_ok[OF pos nt]
    show ?thesis
    proof (cases mk)
      case None
      have "\<not> returns (EmplaceBack T a mk s)"
        using n by (simp add: EmplaceBack_def this_obj_def v sz full[symmetric] ctor None
            RawMemory_plus_def construct_at_def)
      with None show ?thesis by blast
    next
      case (Some x)
      let ?sn = "(replicate ?nc Raw)[?n := Live x]"
      let ?s2 = "put_block ?bn ?sn ?s1"
      have bn1: "block_at ?s1 ?bn = Some (replicate ?nc Raw)"
        by (simp add: block_at_add_block)
      have pn: "placement_new (Ptr ?bn ?n) x ?s1 = Return () ?s2"
        by (rule placement_new_Raw[OF bn1]) (use n in simp_all)
      have bn2: "block_at ?s2 ?bn = Some ?sn"
        by (simp add: block_at_put_block)
      from owns_nonempty_Ptr[OF o False] obtain bo where buf: "buffer' (data' v) = Ptr bo 0" ..
      from owns_PtrD[OF o buf] have "block_at s bo = Some (block_of xs (capacity' (data' v)))"
        by simp
      then have blk: "block_at s bo = Some (map Live xs)" using full[symmetric] by simp
      have bo: "bo < ?bn" using blk by (rule block_at_lt)
      have ne: "bo \<noteq> ?bn" using bo by simp
      have bo2: "block_at ?s2 bo = Some (map Live xs)"
        using blk bo by (simp add: block_at_put_block block_at_add_block)
      have src: "slots_are (map Live xs) 0 (map Live xs)" by (simp add: slots_are_def)
      have dst: "slots_are ?sn 0 (replicate ?n Raw)"
        using n by (simp add: slots_are_update_after) (simp add: slots_are_def)
      let ?R = "if ?D then uninitialized_move_n T (Ptr bo 0) ?n (Ptr ?bn 0) ?s2
                else uninitialized_copy_n T (Ptr bo 0) ?n (Ptr ?bn 0) ?s2"
      have eb: "EmplaceBack T a mk s =
        seq (seq (unwind (seq ?R (\<lambda>_. destroy_n (Ptr bo 0) ?n)) (RawMemory_dtor ?nd))
              (\<lambda>_ s. RawMemory_dtor \<lparr>buffer' = Ptr bo 0, capacity' = ?n\<rparr>
                        (set_vec a (v\<lparr>data' := ?nd\<rparr>) s)))
          (\<lambda>_ s. seq (this_obj a s) (\<lambda>v' s.
            seq (RawMemory_index (data' v') (size' v') s) (\<lambda>r s.
              Return r (set_vec a (v'\<lparr>size' := size' v' + 1\<rparr>) s))))"
        using n pn
        by (simp add: EmplaceBack_def this_obj_def v sz full[symmetric] buf ctor Some
            RawMemory_plus_def construct_at_def RawMemory_Swap_def cong: if_cong)
      from relocate_spec[OF vs bo2 src bn2 ne dst, of ?D]
      show ?thesis
      proof
        let ?zs = "if ?D then map (residue T) xs else xs"
        let ?s3 = "(put_block ?bn (patch ?sn 0 (map Live xs))
                     (put_block bo (patch (map Live xs) 0 (map Live ?zs)) ?s2))
                   \<lparr>copy_calls := copy_calls ?s2 + (if ?D then 0 else ?n),
                    move_calls := move_calls ?s2 + (if ?D then ?n else 0)\<rparr>"
        assume R: "?R = Return () ?s3"
        have lz: "length ?zs = ?n" by simp
        have pz: "patch (map Live xs) 0 (map Live ?zs) = map Live ?zs"
          by (rule patch_all) simp
        have bo3: "block_at ?s3 bo = Some (map Live ?zs)"
          using ne bo by (simp only: pz) (simp add: block_at_put_block)
        have srcz: "slots_are (map Live ?zs) 0 (map Live ?zs)" by (simp add: slots_are_def)
        let ?s4 = "put_block bo (replicate ?n Raw) ?s3"
        have "destroy_n (Ptr bo 0) (length ?zs) ?s3 =
          Return () (put_block bo (patch (map Live ?zs) 0 (replicate (length ?zs) Raw)) ?s3)"
          by (rule destroy_n_spec[OF bo3 srcz])
        then have d: "destroy_n (Ptr bo 0) ?n ?s3 = Return () ?s4"
          by (simp only: lz) (simp add: patch_all)
        let ?s5 = "set_vec a (v\<lparr>data' := ?nd\<rparr>) ?s4"
        have bo5: "block_at ?s5 bo = Some (replicate ?n Raw)"
          using bo by (simp add: block_at_put_block)
        have del: "RawMemory_dtor \<lparr>buffer' = Ptr bo 0, capacity' = ?n\<rparr> ?s5 = Return () (free_block bo ?s5)"
          using operator_delete_raw[OF bo5] by (simp add: RawMemory_dtor_def Deallocate_def)
        let ?s7 = "set_vec a \<lparr>data' = ?nd, size' = Suc ?n\<rparr> (free_block bo ?s5)"
        have eq: "EmplaceBack T a mk s = Return (Ptr ?bn ?n) ?s7"
          unfolding eb R using n d del
          by (simp add: this_obj_def RawMemory_index_def sz)
        have b7: "block_at ?s7 ?bn = Some (block_of (xs @ [x]) ?nc)"
          using ne n by (simp add: block_at_free_block block_at_put_block patch_fresh_snoc)
        show ?thesis
          using Some eq b7 False by simp
      next
        assume "\<not> returns ?R \<and> \<not> nothrow T"
        then have "\<not> returns (EmplaceBack T a mk s)" and "\<not> nothrow T"
          unfolding eb by simp_all
        then show ?thesis by blast
      qed
    qed
  qed
qed

lemma block_of_nth_Live: "i < length xs \<Longrightarrow> block_of xs cap ! i = Live (xs ! i)"
  by (simp add: block_of_def nth_append)

lemma holdsD: "holds s a xs \<Longrightarrow> \<exists>v. vecs s a = Some v \<and> owns s v xs"
  by (auto simp: holds_def split: option.splits)

lemma holdsI: "vecs s a = Some v \<Longrightarrow> owns s v xs \<Longrightarrow> holds s a xs"
  by (simp add: holds_def)

lemma EmplaceBack_spec:
  assumes vs: "value_semantics T" and h: "holds s a xs"
  shows "(\<exists>x r s'. mk = Some x \<and> EmplaceBack T a mk s = Return r s' \<and>
            holds s' a (xs @ [x]) \<and> position s' a (length xs) = Some r \<and> load s' r = Some x \<and>
            size_of s' a = Suc (size_of s a) \<and>
            cap_of s' a = (if length xs = cap_of s a
                           then (if length xs = 0 then 1 else length xs * 2) else cap_of s a) \<and>
            new_fails s' = (if length xs = cap_of s a then tl (new_fails s) else new_fails s))
         \<or> (\<not> returns (EmplaceBack T a mk s) \<and>
             (mk = None \<or> \<not> nothrow T \<or> (length xs = cap_of s a \<and> new_throws s)))"
proof -
  from holdsD[OF h] obtain v where v: "vecs s a = Some v" and o: "owns s v xs" by blast
  from o have sz: "size' v = length xs" and le: "length xs \<le> capacity' (data' v)"
    by (simp_all add: owns_def)
  have cap: "cap_of s a = capacity' (data' v)" and szo: "size_of s a = length xs"
    using v sz by (simp_all add: cap_of_def size_of_def)
  show ?thesis
  proof (cases "length xs = capacity' (data' v)")
    case True
    let ?nc = "if length xs = 0 then 1 else length xs * 2"
    from EmplaceBack_grow[OF vs v o True, of mk]
    show ?thesis
    proof
      assume "\<exists>x s'. mk = Some x \<and>
            EmplaceBack T a mk s = Return (Ptr (length (blocks s)) (length xs)) s' \<and>
            vecs s' = (vecs s)(a \<mapsto> \<lparr>data' = \<lparr>buffer' = Ptr (length (blocks s)) 0,
                 capacity' = ?nc\<rparr>, size' = Suc (length xs)\<rparr>) \<and>
            block_at s' (length (blocks s)) = Some (block_of (xs @ [x]) ?nc) \<and>
            new_fails s' = tl (new_fails s) \<and> leaked s' = leaked s \<and>
            copy_calls s' = copy_calls s +
              (if is_nothrow_move_constructible T \<or> \<not> is_copy_constructible T then 0 else length xs) \<and>
            move_calls s' = move_calls s +
              (if is_nothrow_move_constructible T \<or> \<not> is_copy_constructible T then length xs else 0)"
      then obtain x s' where mk: "mk = Some x"
        and eq: "EmplaceBack T a mk s = Return (Ptr (length (blocks s)) (length xs)) s'"
        and vs': "vecs s' a = Some \<lparr>data' = \<lparr>buffer' = Ptr (length (blocks s)) 0,
                 capacity' = ?nc\<rparr>, size' = Suc (length xs)\<rparr>"
        and blk: "block_at s' (length (blocks s)) = Some (block_of (xs @ [x]) ?nc)"
        and nf: "new_fails s' = tl (new_fails s)"
        by auto
      have lt: "length xs < ?nc" by simp
      have le': "Suc (length xs) \<le> ?nc" by (cases xs) simp_all
      have ow: "owns s' \<lparr>data' = \<lparr>buffer' = Ptr (length (blocks s)) 0,
                 capacity' = ?nc\<rparr>, size' = Suc (length xs)\<rparr> (xs @ [x])"
        using blk le' by (simp add: owns_def)
      have ld: "load s' (Ptr (length (blocks s)) (length xs)) = Some x"
        by (rule load_Live[OF blk]) (use lt in \<open>simp_all add: block_of_nth_Live\<close>)
      have "holds s' a (xs @ [x]) \<and> position s' a (length xs) = Some (Ptr (length (blocks s)) (length xs)) \<and>
        size_of s' a = Suc (size_of s a) \<and> cap_of s' a = ?nc"
        using vs' ow szo by (simp add: holds_def position_def size_of_def cap_of_def)
      with mk eq ld nf True cap show ?thesis by auto
    next
      assume "\<not> returns (EmplaceBack T a mk s) \<and> (mk = None \<or> \<not> nothrow T \<or> new_throws s)"
      with True cap show ?thesis by auto
    qed
  next
    case False
    with le have room: "length xs < capacity' (data' v)" by simp
    then have "0 < capacity' (data' v)" by simp
    from owns_room_Ptr[OF o this] obtain b where buf: "buffer' (data' v) = Ptr b 0" ..
    from owns_PtrD[OF o buf] have blk: "block_at s b = Some (block_of xs (capacity' (data' v)))"
      by simp
    have bl: "b < length (blocks s)" using blk by (rule block_at_lt)
    show ?thesis
    proof (cases mk)
      case None
      with EmplaceBack_in_place(2)[OF v o room buf, of T] show ?thesis by simp
    next
      case (Some x)
      let ?v' = "v\<lparr>size' := Suc (length xs)\<rparr>"
      let ?s' = "set_vec a ?v' (put_block b (block_of (xs @ [x]) (capacity' (data' v))) s)"
      have eq: "EmplaceBack T a mk s = Return (Ptr b (length xs)) ?s'"
        using EmplaceBack_in_place(1)[OF v o room buf, of T x] Some by simp
      have blk': "block_at ?s' b = Some (block_of (xs @ [x]) (capacity' (data' v)))"
        using bl by (simp add: block_at_put_block)
      have ow: "owns ?s' ?v' (xs @ [x])"
        using room buf blk' by (simp add: owns_def)
      have ld: "load ?s' (Ptr b (length xs)) = Some x"
        by (rule load_Live[OF blk']) (use room in \<open>simp_all add: block_of_nth_Live\<close>)
      have "holds ?s' a (xs @ [x]) \<and> position ?s' a (length xs) = Some (Ptr b (length xs)) \<and>
        size_of ?s' a = Suc (size_of s a) \<and> cap_of ?s' a = cap_of s a \<and> new_fails ?s' = new_fails s"
        using ow szo cap buf by (simp add: holds_def position_def size_of_def cap_of_def)
      with Some eq ld False cap show ?thesis by auto
    qed
  qed
qed

lemma block_of_butlast:
  "xs \<noteq> [] \<Longrightarrow> length xs \<le> cap \<Longrightarrow> (block_of xs cap)[length xs - Suc 0 := Raw] = block_of (butlast xs) cap"
proof (induction xs rule: rev_induct)
  case Nil
  then show ?case by simp
next
  case (snoc x xs)
  then have "cap - length xs = Suc (cap - Suc (length xs))" by simp
  then show ?case
    by (simp add: block_of_def list_update_append)
qed

lemma PopBack_spec:
  assumes h: "holds s a xs" and ne: "xs \<noteq> []"
  shows "\<exists>s'. PopBack a s = Return () s' \<and> holds s' a (butlast xs) \<and>
           cap_of s' a = cap_of s a \<and> new_fails s' = new_fails s \<and> size_of s' a = size_of s a - 1"
proof -
  from holdsD[OF h] obtain v where v: "vecs s a = Some v" and o: "owns s v xs" by blast
  from owns_nonempty_Ptr[OF o ne] obtain b where buf: "buffer' (data' v) = Ptr b 0" ..
  from owns_PtrD[OF o buf] have sz: "size' v = length xs" and le: "length xs \<le> capacity' (data' v)"
    and blk: "block_at s b = Some (block_of xs (capacity' (data' v)))" by simp_all
  let ?cap = "capacity' (data' v)"
  have n: "0 < length xs" using ne by simp
  have n1: "Suc 0 \<le> length xs" using ne by (cases xs) simp_all
  have bl: "b < length (blocks s)" using blk by (rule block_at_lt)
  have "length (block_of xs ?cap) = ?cap" by (rule length_block_of[OF le])
  with n le have i: "length xs - 1 < length (block_of xs ?cap)" by arith
  have lv: "block_of xs ?cap ! (length xs - 1) = Live (xs ! (length xs - 1))"
    using n by (simp add: block_of_nth_Live)
  let ?s1 = "put_block b (block_of (butlast xs) ?cap) s"
  have d: "destroy_at (Ptr b (length xs - 1)) s = Return () ?s1"
    using destroy_at_Live[OF blk i lv] by (simp add: block_of_butlast[OF ne le])
  let ?v' = "v\<lparr>size' := length xs - 1\<rparr>"
  have eq: "PopBack a s = Return () (set_vec a ?v' ?s1)"
    using n n1 le d by (simp add: PopBack_def this_obj_def v sz RawMemory_plus_def buf)
  have ow: "owns (set_vec a ?v' ?s1) ?v' (butlast xs)"
    using n n1 le buf bl by (simp add: owns_def block_at_put_block)
  show ?thesis
    using eq ow v sz by (simp add: holds_def cap_of_def size_of_def)
qed

lemma PushBack_spec:
  assumes vs: "value_semantics T" and h: "holds s a xs"
  shows "(\<exists>s'. PushBack T a x s = Return () s' \<and> holds s' a (xs @ [x]) \<and>
            size_of s' a = Suc (size_of s a) \<and>
            cap_of s' a = (if length xs = cap_of s a
                           then (if length xs = 0 then 1 else length xs * 2) else cap_of s a) \<and>
            new_fails s' = (if length xs = cap_of s a then tl (new_fails s) else new_fails s))
         \<or> (\<not> returns (PushBack T a x s) \<and> (\<not> nothrow T \<or> (length xs = cap_of s a \<and> new_throws s)))"
proof -
  from EmplaceBack_spec[OF vs h, of "copy_construct T x"]
  show ?thesis
  proof
    assume "\<exists>y r s'. copy_construct T x = Some y \<and>
        EmplaceBack T a (copy_construct T x) s = Return r s' \<and>
        holds s' a (xs @ [y]) \<and> position s' a (length xs) = Some r \<and> load s' r = Some y \<and>
        size_of s' a = Suc (size_of s a) \<and>
        cap_of s' a = (if length xs = cap_of s a
                       then (if length xs = 0 then 1 else length xs * 2) else cap_of s a) \<and>
        new_fails s' = (if length xs = cap_of s a then tl (new_fails s) else new_fails s)"
    then obtain y r s' where y: "copy_construct T x = Some y"
      and eq: "EmplaceBack T a (copy_construct T x) s = Return r s'"
      and rest: "holds s' a (xs @ [y])" "size_of s' a = Suc (size_of s a)"
        "cap_of s' a = (if length xs = cap_of s a
                       then (if length xs = 0 then 1 else length xs * 2) else cap_of s a)"
        "new_fails s' = (if length xs = cap_of s a then tl (new_fails s) else new_fails s)"
      by blast
    from vs y have "y = x" by (auto simp: value_semantics_def)
    moreover have "PushBack T a x s = Return () s'" by (simp add: PushBack_def eq)
    ultimately show ?thesis using rest by blast
  next
    assume f: "\<not> returns (EmplaceBack T a (copy_construct T x) s) \<and>
      (copy_construct T x = None \<or> \<not> nothrow T \<or> (length xs = cap_of s a \<and> new_throws s))"
    then have "\<not> returns (PushBack T a x s)" by (simp add: PushBack_def)
    moreover from f have "\<not> nothrow T \<or> (length xs = cap_of s a \<and> new_throws s)"
      using nothrowD[of T x] by auto
    ultimately show ?thesis by blast
  qed
qed

lemma PopBack_empty: "holds s a [] \<Longrightarrow> PopBack a s = AssertFail"
  by (auto simp: holds_def owns_def PopBack_def this_obj_def split: option.splits)

lemma apply_ops_result:
  assumes vs: "value_semantics T"
  shows "holds s a xs \<Longrightarrow> apply_ops T a os s = Return () s' \<Longrightarrow>
    holds s' a (surviving xs os) \<and>
    int (length (surviving xs os)) = int (length xs) + int (pushes os) - int (pops os)"
proof (induction os arbitrary: s xs)
  case Nil
  then show ?case by simp
next
  case (Cons o1 os)
  show ?case
  proof (cases o1)
    case (Push x)
    from PushBack_spec[OF vs Cons.prems(1), of x]
    show ?thesis
    proof
      assume "\<exists>s1. PushBack T a x s = Return () s1 \<and> holds s1 a (xs @ [x]) \<and>
            size_of s1 a = Suc (size_of s a) \<and>
            cap_of s1 a = (if length xs = cap_of s a
                           then (if length xs = 0 then 1 else length xs * 2) else cap_of s a) \<and>
            new_fails s1 = (if length xs = cap_of s a then tl (new_fails s) else new_fails s)"
      then obtain s1 where p: "PushBack T a x s = Return () s1" and h1: "holds s1 a (xs @ [x])"
        by blast
      from Cons.prems(2) Push p have "apply_ops T a os s1 = Return () s'" by simp
      from Cons.IH[OF h1 this] show ?thesis using Push by simp
    next
      assume "\<not> returns (PushBack T a x s) \<and> (\<not> nothrow T \<or> (length xs = cap_of s a \<and> new_throws s))"
      then have "\<not> returns (apply_ops T a (o1 # os) s)" using Push by simp
      with Cons.prems(2) show ?thesis by simp
    qed
  next
    case Pop
    show ?thesis
    proof (cases "xs = []")
      case True
      with Cons.prems Pop show ?thesis by (simp add: PopBack_empty)
    next
      case False
      from PopBack_spec[OF Cons.prems(1) False] obtain s1 where
        p: "PopBack a s = Return () s1" and h1: "holds s1 a (butlast xs)" by blast
      from Cons.prems(2) Pop p have "apply_ops T a os s1 = Return () s'" by simp
      from Cons.IH[OF h1 this] show ?thesis using Pop False
        by (cases xs rule: rev_cases) simp_all
    qed
  qed
qed

lemma new_throws_Nil [simp]: "new_fails s = [] \<Longrightarrow> \<not> new_throws s"
  by (simp add: new_throws_def)

lemma apply_ops_returns:
  assumes vs: "value_semantics T" and nt: "nothrow T"
  shows "holds s a xs \<Longrightarrow> new_fails s = [] \<Longrightarrow> never_underflows (length xs) os \<Longrightarrow>
    returns (apply_ops T a os s)"
proof (induction os arbitrary: s xs)
  case Nil
  then show ?case by simp
next
  case (Cons o1 os)
  show ?case
  proof (cases o1)
    case (Push x)
    from PushBack_spec[OF vs Cons.prems(1), of x] nt Cons.prems(2)
    obtain s1 where p: "PushBack T a x s = Return () s1" and h1: "holds s1 a (xs @ [x])"
      and nf: "new_fails s1 = []"
      by (auto split: if_splits)
    from Cons.prems(3) Push have "never_underflows (length (xs @ [x])) os" by simp
    from Cons.IH[OF h1 nf this] show ?thesis using Push p by simp
  next
    case Pop
    with Cons.prems(3) have ne: "xs \<noteq> []" and nu: "never_underflows (length (butlast xs)) os"
      by auto
    from PopBack_spec[OF Cons.prems(1) ne] Cons.prems(2) obtain s1 where
      p: "PopBack a s = Return () s1" and h1: "holds s1 a (butlast xs)" and nf: "new_fails s1 = []"
      by auto
    from Cons.IH[OF h1 nf nu] show ?thesis using Pop p by simp
  qed
qed

lemma Index_spec:
  assumes h: "holds s a xs" and i: "i < length xs"
  shows "\<exists>p. Index a i s = Return p s \<and> load s p = Some (xs ! i)"
proof -
  from holdsD[OF h] obtain v where v: "vecs s a = Some v" and o: "owns s v xs" by blast
  from i have "xs \<noteq> []" by auto
  from owns_nonempty_Ptr[OF o this] obtain b where buf: "buffer' (data' v) = Ptr b 0" ..
  from owns_PtrD[OF o buf] have le: "length xs \<le> capacity' (data' v)"
    and blk: "block_at s b = Some (block_of xs (capacity' (data' v)))" by simp_all
  have "Index a i s = Return (Ptr b i) s"
    using i le by (simp add: Index_def this_obj_def v RawMemory_index_def buf)
  moreover have "load s (Ptr b i) = Some (xs ! i)"
    by (rule load_Live[OF blk]) (use i le in \<open>simp_all add: block_of_nth_Live\<close>)
  ultimately show ?thesis by blast
qed

lemma holds_size: "holds s a xs \<Longrightarrow> size_of s a = length xs"
  by (auto simp: holds_def owns_def size_of_def split: option.splits)

lemma Size_spec: "holds s a xs \<Longrightarrow> Size a s = Return (length xs) s"
  by (auto simp: holds_def owns_def Size_def this_obj_def split: option.splits)

text \<open>Claim C7: a sequence of \<open>push_back\<close> and \<open>pop_back\<close> calls on an empty array,
  when it returns, leaves the array holding the surviving values in push order:
  \<open>Size()\<close> then returns the number of pushes minus the number of pops, which is
  also what the member \<open>size_\<close> is, and indexing with \<open>i\<close> below the size gives
  the \<open>i\<close>-th of the surviving values; the sequence returns when nothing throws and
  no \<open>pop_back\<close> meets an empty array. One \<open>emplace_back\<close> on an array that holds
  \<open>xs\<close>, when it returns, has raised the count by exactly one (\<open>Size()\<close> returns
  \<open>n\<close> before and \<open>n + 1\<close> after), and the reference it returns is the new last
  position and holds the element just constructed.\<close>

theorem push_pop_sequence:
  assumes vs: "value_semantics T"
  shows "(holds s a [] \<longrightarrow>
           (\<forall>s'. apply_ops T a os s = Return () s' \<longrightarrow>
              holds s' a (surviving [] os) \<and>
              (\<exists>n. Size a s' = Return n s' \<and> int n = int (pushes os) - int (pops os)) \<and>
              int (size_of s' a) = int (pushes os) - int (pops os) \<and>
              (\<forall>i<length (surviving [] os).
                 \<exists>p. Index a i s' = Return p s' \<and> load s' p = Some (surviving [] os ! i))) \<and>
           (nothrow T \<and> new_fails s = [] \<and> never_underflows 0 os \<longrightarrow> returns (apply_ops T a os s))) \<and>
         (holds s a xs \<longrightarrow>
           (\<forall>mk r s'. EmplaceBack T a mk s = Return r s' \<longrightarrow>
              (\<exists>n. Size a s = Return n s \<and> Size a s' = Return (Suc n) s') \<and>
              size_of s' a = Suc (size_of s a) \<and>
              (\<exists>x. mk = Some x \<and> holds s' a (xs @ [x]) \<and>
                   position s' a (length xs) = Some r \<and> load s' r = Some x)))"
proof (intro conjI impI allI)
  fix s' assume h: "holds s a []" and r: "apply_ops T a os s = Return () s'"
  from apply_ops_result[OF vs h r]
  have h': "holds s' a (surviving [] os)"
    and n: "int (length (surviving [] os)) = int (pushes os) - int (pops os)"
    by simp_all
  show "holds s' a (surviving [] os)" by (rule h')
  show "\<exists>n. Size a s' = Return n s' \<and> int n = int (pushes os) - int (pops os)"
    using n Size_spec[OF h'] by simp
  show "int (size_of s' a) = int (pushes os) - int (pops os)"
    using n holds_size[OF h'] by simp
  fix i assume "i < length (surviving [] os)"
  from Index_spec[OF h' this]
  show "\<exists>p. Index a i s' = Return p s' \<and> load s' p = Some (surviving [] os ! i)" .
next
  assume h: "holds s a []" and "nothrow T \<and> new_fails s = [] \<and> never_underflows 0 os"
  then show "returns (apply_ops T a os s)"
    using apply_ops_returns[OF vs _ h, of os] by simp
next
  fix mk r s' assume h: "holds s a xs" and e: "EmplaceBack T a mk s = Return r s'"
  from EmplaceBack_spec[OF vs h, of mk] e
  obtain x where x: "mk = Some x" "holds s' a (xs @ [x])"
      "position s' a (length xs) = Some r" "load s' r = Some x"
    and sz: "size_of s' a = Suc (size_of s a)"
    by (auto simp: returns_iff)
  show "\<exists>n. Size a s = Return n s \<and> Size a s' = Return (Suc n) s'"
    using Size_spec[OF h] Size_spec[OF x(2)] by simp
  show "size_of s' a = Suc (size_of s a)" by (rule sz)
  show "\<exists>x. mk = Some x \<and> holds s' a (xs @ [x]) \<and>
           position s' a (length xs) = Some r \<and> load s' r = Some x"
    using x by blast
qed


theorem push_pop_sequence_witness:
  "value_semantics string_ops \<and> nothrow string_ops \<and> holds (start :: string state) 0 [] \<and>
   new_fails (start :: string state) = [] \<and>
   never_underflows 0 [Push ''a'', Push ''b'', Pop, Push ''c''] \<and>
   (\<exists>s'. apply_ops string_ops 0 [Push ''a'', Push ''b'', Pop, Push ''c''] start = Return () s' \<and>
      holds s' 0 [''a'', ''c''] \<and> Size 0 s' = Return 2 s' \<and> int (size_of s' 0) = 3 - 1 \<and>
      (\<exists>p. Index 0 1 s' = Return p s' \<and> load s' p = Some ''c'')) \<and>
   holds abc 0 [''a'', ''b'', ''c''] \<and>
   (\<exists>r s'. EmplaceBack string_ops 0 (Some ''d'') abc = Return r s' \<and>
      Size 0 abc = Return 3 abc \<and> Size 0 s' = Return 4 s' \<and>
      size_of s' 0 = Suc (size_of abc 0) \<and> load s' r = Some ''d'')"
proof -
  let ?os = "[Push ''a'', Push ''b'', Pop, Push ''c'']"
  note main = push_pop_sequence[OF value_semantics_string,
      where s = "start :: string state" and a = 0 and os = ?os]
  note main2 = push_pop_sequence[OF value_semantics_string,
      where s = abc and a = 0 and xs = "[''a'', ''b'', ''c'']"]
  have nf: "new_fails (start :: string state) = []" by (simp add: start_def)
  have nu: "never_underflows 0 ?os" by simp
  from main holds_start nothrow_string nf nu
  have "returns (apply_ops string_ops 0 ?os start)" by blast
  then obtain s' where r: "apply_ops string_ops 0 ?os start = Return () s'"
    by (auto simp: returns_iff)
  from main holds_start r
  have 1: "holds s' 0 (surviving [] ?os)" "int (size_of s' 0) = int (pushes ?os) - int (pops ?os)"
    "\<forall>i<length (surviving [] ?os). \<exists>p. Index 0 i s' = Return p s' \<and> load s' p = Some (surviving [] ?os ! i)"
    "\<exists>n. Size 0 s' = Return n s' \<and> int n = int (pushes ?os) - int (pops ?os)"
    by blast+
  from 1(4) have sz1: "Size 0 s' = Return 2 s'" by auto
  from 1(3) have 2: "\<exists>p. Index 0 1 s' = Return p s' \<and> load s' p = Some ''c''"
    by (simp add: less_Suc_eq)
  from EmplaceBack_spec[OF value_semantics_string holds_abc, of "Some ''d''"] nothrow_string
  obtain r0 s0 where e: "EmplaceBack string_ops 0 (Some ''d'') abc = Return r0 s0"
    by (auto simp: cap_of_def abc_def)
  from main2 holds_abc e
  have 3: "size_of s0 0 = Suc (size_of abc 0)" "load s0 r0 = Some ''d''"
    "\<exists>n. Size 0 abc = Return n abc \<and> Size 0 s0 = Return (Suc n) s0" by blast+
  have "Size 0 abc = Return 3 abc" by (simp add: Size_def this_obj_def abc_def)
  with 3(3) have sz2: "Size 0 abc = Return 3 abc" "Size 0 s0 = Return 4 s0" by auto
  from r 1(1-3) 2 e 3(1,2) sz1 sz2 show ?thesis
    using value_semantics_string nothrow_string holds_start nf nu holds_abc by auto
qed

lemma value_semantics_move_assign:
  "value_semantics T \<Longrightarrow> move_assign T d x = Some (y, x') \<Longrightarrow> y = x"
  unfolding value_semantics_def by blast

lemma value_semantics_move_construct:
  "value_semantics T \<Longrightarrow> move_construct T x = Some (y, x') \<Longrightarrow> y = x"
  unfolding value_semantics_def by blast

lemma move_assign_at_ok:
  assumes blk: "block_at s b = Some sl" and d: "d < length sl" and p: "p < length sl"
    and dv: "sl ! d = Live y0" and pv: "sl ! p = Live y" and ma: "move_assign T y0 y = Some (y', x')"
  shows "move_assign_at T (Ptr b d) (Ptr b p) s = Return () (put_block b (sl[p := Live x', d := Live y']) s)"
proof -
  have b: "b < length (blocks s)" using blk by (rule block_at_lt)
  have 1: "set_slot s (Ptr b p) (Live x') = put_block b (sl[p := Live x']) s"
    by (rule set_slot_put[OF blk])
  have 2: "block_at (put_block b (sl[p := Live x']) s) b = Some (sl[p := Live x'])"
    using b by (simp add: block_at_put_block)
  show ?thesis
    using load_Live[OF blk d dv] load_Live[OF blk p pv] ma
    by (simp add: move_assign_at_def 1 set_slot_put[OF 2] del: set_slot.simps)
qed

lemma move_assign_at_throws:
  assumes blk: "block_at s b = Some sl" and d: "d < length sl" and p: "p < length sl"
    and dv: "sl ! d = Live y0" and pv: "sl ! p = Live y" and ma: "move_assign T y0 y = None"
  shows "\<not> returns (move_assign_at T (Ptr b d) (Ptr b p) s)"
  using load_Live[OF blk d dv] load_Live[OF blk p pv] ma
  by (simp add: move_assign_at_def)

lemma move_loop_spec:
  assumes vs: "value_semantics T"
  shows "block_at s b = Some sl \<Longrightarrow> d < length sl \<Longrightarrow> sl ! d = Live y0 \<Longrightarrow>
    slots_are sl (Suc d) (map Live ys) \<Longrightarrow>
    (\<exists>z. move_loop T (Ptr b (Suc d)) (Ptr b d) (length ys) s =
            Return () (put_block b (patch sl d (map Live ys @ [Live z])) s))
    \<or> (\<not> returns (move_loop T (Ptr b (Suc d)) (Ptr b d) (length ys) s) \<and> \<not> nothrow T)"
proof (induction ys arbitrary: s sl d y0)
  case Nil
  have "slots_are sl d [Live y0]" using Nil by (simp add: slots_are_Cons)
  from patch_same[OF this] have "patch sl d [Live y0] = sl" .
  then show ?case using put_block_same[OF Nil(1)] by (intro disjI1 exI[of _ y0]) simp
next
  case (Cons y ys)
  from Cons.prems(4) have p: "Suc d < length sl" and pv: "sl ! Suc d = Live y"
    and rest: "slots_are sl (Suc (Suc d)) (map Live ys)"
    by (simp_all add: slots_are_Cons)
  have b: "b < length (blocks s)" using Cons.prems(1) by (rule block_at_lt)
  show ?case
  proof (cases "move_assign T y0 y")
    case None
    then have "\<not> nothrow T" using nothrowD[of T y y0] by auto
    moreover have "\<not> returns (move_loop T (Ptr b (Suc d)) (Ptr b d) (length (y # ys)) s)"
      using move_assign_at_throws[OF Cons.prems(1,2) p Cons.prems(3) pv None] by simp
    ultimately show ?thesis by blast
  next
    case (Some yx)
    obtain y' x' where yx: "yx = (y', x')" by (cases yx)
    with Some vs have y': "y' = y" using value_semantics_move_assign[of T y0 y y' x'] by simp
    let ?sl1 = "sl[Suc d := Live x', d := Live y]"
    let ?s1 = "put_block b ?sl1 s"
    have ma: "move_assign_at T (Ptr b d) (Ptr b (Suc d)) s = Return () ?s1"
      using move_assign_at_ok[OF Cons.prems(1,2) p Cons.prems(3) pv] Some yx y' by simp
    have step: "move_loop T (Ptr b (Suc d)) (Ptr b d) (length (y # ys)) s =
      move_loop T (Ptr b (Suc (Suc d))) (Ptr b (Suc d)) (length ys) ?s1"
      by (simp add: ma)
    have 1: "block_at ?s1 b = Some ?sl1" using b by (simp add: block_at_put_block)
    have 2: "Suc d < length ?sl1" using p by simp
    have 3: "?sl1 ! Suc d = Live x'" using p by simp
    have 4: "slots_are ?sl1 (Suc (Suc d)) (map Live ys)"
      using rest by (simp add: slots_are_update_before)
    have pe: "\<And>cs. length cs = Suc (length ys) \<Longrightarrow> patch ?sl1 (Suc d) cs = patch sl d (Live y # cs)"
    proof -
      fix cs :: "'a slot list" assume l: "length cs = Suc (length ys)"
      have "patch ?sl1 (Suc d) cs = patch (sl[Suc d := Live x']) d (Live y # cs)"
        by (rule patch_update_front) (use Cons.prems(2) in simp)
      also have "\<dots> = patch sl d (Live y # cs)"
        by (rule patch_update_inside) (use l in simp_all)
      finally show "patch ?sl1 (Suc d) cs = patch sl d (Live y # cs)" .
    qed
    from Cons.IH[OF 1 2 3 4]
    show ?thesis
    proof
      assume "\<exists>z. move_loop T (Ptr b (Suc (Suc d))) (Ptr b (Suc d)) (length ys) ?s1 =
        Return () (put_block b (patch ?sl1 (Suc d) (map Live ys @ [Live z])) ?s1)"
      then obtain z where "move_loop T (Ptr b (Suc (Suc d))) (Ptr b (Suc d)) (length ys) ?s1 =
        Return () (put_block b (patch ?sl1 (Suc d) (map Live ys @ [Live z])) ?s1)" ..
      then have "move_loop T (Ptr b (Suc d)) (Ptr b d) (length (y # ys)) s =
        Return () (put_block b (patch sl d (map Live (y # ys) @ [Live z])) s)"
        unfolding step by (simp add: pe)
      then show ?thesis by blast
    next
      assume "\<not> returns (move_loop T (Ptr b (Suc (Suc d))) (Ptr b (Suc d)) (length ys) ?s1) \<and> \<not> nothrow T"
      then show ?thesis unfolding step by blast
    qed
  qed
qed

lemma patch_update_last:
  "i + length cs < length sl \<Longrightarrow> (patch sl i (cs @ [c']))[i + length cs := c] = patch sl i (cs @ [c])"
  by (simp add: patch_def list_update_append)

lemma block_of_slots_from:
  "length xs \<le> cap \<Longrightarrow> k \<le> length xs \<Longrightarrow> slots_are (block_of xs cap) k (map Live (drop k xs))"
  by (auto simp: slots_are_iff block_of_def nth_append)

lemma block_of_erase:
  assumes le: "length xs \<le> cap" and k: "k < length xs"
  shows "patch (block_of xs cap) k (map Live (drop (Suc k) xs) @ [Raw]) =
         block_of (take k xs @ drop (Suc k) xs) cap"
proof -
  have 1: "take k (block_of xs cap) = map Live (take k xs)"
    using k by (simp add: block_of_def take_map)
  have 2: "drop (k + length (map Live (drop (Suc k) xs) @ [Raw])) (block_of xs cap) =
    replicate (cap - length xs) Raw"
    using k by (simp add: block_of_def)
  have 3: "cap - (min (length xs) k + (length xs - Suc k)) = Suc (cap - length xs)"
    using k le by simp
  show ?thesis
    unfolding patch_def 1 2 by (simp add: block_of_def 3 replicate_app_Cons_same)
qed

text \<open>Claim C6: for an array that holds \<open>xs\<close> and an offset \<open>k\<close> below its size,
  \<open>erase\<close> at \<open>begin() + k\<close>, when it returns, leaves the array holding \<open>xs\<close>
  without its \<open>k\<close>-th element, the others in their order, with a size one smaller, the
  same capacity and the same block (no block is allocated or freed), and returns the
  position \<open>begin() + k\<close>. It returns when no member of \<open>T\<close> throws.\<close>

theorem erase_removes:
  assumes vs: "value_semantics T" and h: "holds s a xs" and k: "k < length xs"
    and pos: "position s a k = Some pos"
  shows "(\<forall>r s'. Erase T a pos s = Return r s' \<longrightarrow>
            holds s' a (take k xs @ drop (Suc k) xs) \<and> size_of s' a = length xs - 1 \<and>
            cap_of s' a = cap_of s a \<and> position s' a 0 = position s a 0 \<and>
            length (blocks s') = length (blocks s) \<and> r = pos \<and> position s' a k = Some r)
         \<and> (nothrow T \<longrightarrow> returns (Erase T a pos s))"
proof -
  from holdsD[OF h] obtain v where v: "vecs s a = Some v" and o: "owns s v xs" by blast
  from k have ne: "xs \<noteq> []" by auto
  from owns_nonempty_Ptr[OF o ne] obtain b where buf: "buffer' (data' v) = Ptr b 0" ..
  from owns_PtrD[OF o buf] have sz: "size' v = length xs" and le: "length xs \<le> capacity' (data' v)"
    and blk: "block_at s b = Some (block_of xs (capacity' (data' v)))" by simp_all
  let ?cap = "capacity' (data' v)"
  let ?sl = "block_of xs ?cap"
  let ?n = "length xs"
  let ?ys = "drop (Suc k) xs"
  have p: "pos = Ptr b k" using pos v buf by (simp add: position_def)
  have bl: "b < length (blocks s)" using blk by (rule block_at_lt)
  have ly: "length ?ys = ?n - Suc k" by simp
  have n1: "Suc 0 \<le> ?n" using k by simp
  have kl: "k < length ?sl" using k le by simp
  have kv: "?sl ! k = Live (xs ! k)" using k by (simp add: block_of_nth_Live)
  have src: "slots_are ?sl (Suc k) (map Live ?ys)"
    using block_of_slots_from[OF le, of "Suc k"] k by simp
  let ?loop = "move_loop T (Ptr b (Suc k)) (Ptr b k) (length ?ys) s"
  have er: "Erase T a pos s =
    seq ?loop (\<lambda>_ s. seq (destroy_at (Ptr b (?n - Suc 0)) s) (\<lambda>_ s.
      seq (this_obj a s) (\<lambda>v s. Return (Ptr b k) (set_vec a (v\<lparr>size' := size' v - 1\<rparr>) s))))"
    using k le n1
    by (simp add: Erase_def Vector_begin_def Vector_end_def this_obj_def v sz buf p
        RawMemory_plus_def std_move_def)
  from move_loop_spec[OF vs blk kl kv src]
  show ?thesis
  proof
    assume "\<exists>z. ?loop = Return () (put_block b (patch ?sl k (map Live ?ys @ [Live z])) s)"
    then obtain z where lp: "?loop = Return () (put_block b (patch ?sl k (map Live ?ys @ [Live z])) s)" ..
    let ?sl1 = "patch ?sl k (map Live ?ys @ [Live z])"
    let ?s1 = "put_block b ?sl1 s"
    have idx: "k + length (map Live ?ys) = ?n - Suc 0" using k by simp
    have len1: "length ?sl1 = ?cap" using k le by simp
    have blk1: "block_at ?s1 b = Some ?sl1" using bl by (simp add: block_at_put_block)
    have i1: "?n - Suc 0 < length ?sl1" using len1 k le by simp
    have sa: "slots_are ?sl1 k (map Live ?ys @ [Live z])"
      by (rule slots_are_patch) (use k le in simp)
    have idx': "k + length ?ys = ?n - Suc 0" using k by simp
    from slots_are_nth[OF sa, of "length ?ys"] have "?sl1 ! (k + length ?ys) = Live z"
      by (simp add: nth_append)
    then have lv: "?sl1 ! (?n - Suc 0) = Live z" unfolding idx' .
    have "(patch ?sl k (map Live ?ys @ [Live z]))[k + length (map Live ?ys) := Raw] =
      patch ?sl k (map Live ?ys @ [Raw])"
      by (rule patch_update_last) (use k le in simp)
    then have upd: "?sl1[?n - Suc 0 := Raw] = block_of (take k xs @ ?ys) ?cap"
      unfolding idx by (simp add: block_of_erase[OF le k])
    let ?s2 = "put_block b (block_of (take k xs @ ?ys) ?cap) s"
    have d: "destroy_at (Ptr b (?n - Suc 0)) ?s1 = Return () ?s2"
      using destroy_at_Live[OF blk1 i1 lv] by (simp add: upd)
    let ?v' = "v\<lparr>size' := ?n - Suc 0\<rparr>"
    have eq: "Erase T a pos s = Return (Ptr b k) (set_vec a ?v' ?s2)"
      unfolding er lp using d by (simp add: this_obj_def v sz)
    have lenr: "length (take k xs @ ?ys) = ?n - Suc 0" using k by simp
    have ow: "owns (set_vec a ?v' ?s2) ?v' (take k xs @ ?ys)"
      using k le buf bl n1 by (simp add: owns_def block_at_put_block min_def)
    have "holds (set_vec a ?v' ?s2) a (take k xs @ ?ys)"
      using ow by (simp add: holds_def)
    moreover have "size_of (set_vec a ?v' ?s2) a = ?n - Suc 0" by (simp add: size_of_def)
    moreover have "cap_of (set_vec a ?v' ?s2) a = cap_of s a" using v by (simp add: cap_of_def)
    moreover have "position (set_vec a ?v' ?s2) a 0 = position s a 0"
      and "position (set_vec a ?v' ?s2) a k = Some (Ptr b k)"
      using v buf by (simp_all add: position_def)
    ultimately show ?thesis using eq p by simp
  next
    assume "\<not> returns ?loop \<and> \<not> nothrow T"
    then have "\<not> returns (Erase T a pos s)" and "\<not> nothrow T" unfolding er by simp_all
    then show ?thesis by (auto simp: returns_iff)
  qed
qed


theorem erase_removes_witness:
  "value_semantics string_ops \<and> nothrow string_ops \<and> holds abc 0 [''a'', ''b'', ''c''] \<and>
   (1 :: nat) < length [''a'', ''b'', ''c''] \<and> position abc 0 1 = Some (Ptr 2 1) \<and>
   (\<exists>r s'. Erase string_ops 0 (Ptr 2 1) abc = Return r s' \<and> holds s' 0 [''a'', ''c''] \<and>
      size_of s' 0 = 2 \<and> cap_of s' 0 = 4 \<and> r = Ptr 2 1)"
proof -
  have k: "(1 :: nat) < length [''a'', ''b'', ''c'']" by simp
  have pos: "position abc 0 1 = Some (Ptr 2 1)" by (simp add: position_def abc_def)
  have cap: "cap_of abc 0 = 4" by (simp add: cap_of_def abc_def)
  note main = erase_removes[OF value_semantics_string holds_abc k pos]
  from main nothrow_string have "returns (Erase string_ops 0 (Ptr 2 1) abc)" by blast
  then obtain r s' where e: "Erase string_ops 0 (Ptr 2 1) abc = Return r s'"
    by (auto simp: returns_iff)
  from main e have "holds s' 0 (take 1 [''a'', ''b'', ''c''] @ drop (Suc 1) [''a'', ''b'', ''c''])"
    "size_of s' 0 = length [''a'', ''b'', ''c''] - 1" "cap_of s' 0 = cap_of abc 0" "r = Ptr 2 1"
    by blast+
  then show ?thesis
    using e value_semantics_string nothrow_string holds_abc pos cap by simp
qed

lemma patch_two_halves:
  "length zs1 = k \<Longrightarrow> k + length zs2 = length sl \<Longrightarrow>
   patch (patch sl 0 (map Live zs1)) k (map Live zs2) = map Live (zs1 @ zs2)"
  by (simp add: patch_def)

lemma slots_are_after_prefix_patch:
  "slots_are sl k cs \<Longrightarrow> length zs = k \<Longrightarrow> slots_are (patch sl 0 zs) k cs"
  by (simp add: slots_are_def patch_def)

lemma fresh_block_prefix:
  "k < c \<Longrightarrow> slots_are ((replicate c Raw)[k := Live x]) 0 (replicate k Raw)"
  by (auto simp: slots_are_iff)

lemma fresh_block_suffix:
  "k + m < c \<Longrightarrow> length ys = k \<Longrightarrow>
   slots_are (patch ((replicate c Raw)[k := Live x]) 0 ys) (Suc k) (replicate m Raw)"
  by (auto simp: slots_are_iff patch_def nth_append)

lemma fresh_block_insert:
  assumes k: "k \<le> length xs" and c: "length xs < c"
  shows "patch (patch ((replicate c Raw)[k := Live x]) 0 (map Live (take k xs))) (Suc k)
           (map Live (drop k xs)) = block_of (take k xs @ x # drop k xs) c"
proof -
  have kc: "k < c" using k c by simp
  have 1: "(replicate c Raw)[k := Live x] = replicate k Raw @ Live x # replicate (c - Suc k) Raw"
    using kc by (simp add: upd_conv_take_nth_drop)
  have 2: "length (take k xs) = k" using k by simp
  have 3: "c - length (take k xs @ x # drop k xs) = c - Suc (length xs)" using k by simp
  have 4: "Suc (k + (length xs - k)) = Suc (length xs)" using k by simp
  have 5: "drop (length xs - k) (replicate (c - Suc k) Raw) = replicate (c - Suc (length xs)) Raw"
    using k c by simp
  have 6: "Suc (length xs) - k = Suc (length xs - k)" using k by simp
  show ?thesis
    unfolding 1 using k by (simp add: patch_def block_of_def 3 4 5 6 min_def)
qed

lemma if_seq_distrib:
  "(if D then seq A1 (\<lambda>_. A2) else seq B1 (\<lambda>_. B2)) =
   seq (if D then A1 else B1) (\<lambda>_ s'. if D then A2 s' else B2 s')"
  by simp

lemma InsertAndReallocate_spec:
  assumes vs: "value_semantics T" and v: "vecs s a = Some v" and o: "owns s v xs"
    and full: "length xs = capacity' (data' v)" and k: "k \<le> length xs"
  shows "(\<exists>x s'. mk = Some x \<and> InsertAndReallocate T a k mk s = Return () s' \<and>
            vecs s' = (vecs s)(a \<mapsto> v\<lparr>data' := \<lparr>buffer' = Ptr (length (blocks s)) 0,
                 capacity' = (if length xs = 0 then 1 else length xs * 2)\<rparr>\<rparr>) \<and>
            block_at s' (length (blocks s)) =
              Some (block_of (take k xs @ x # drop k xs) (if length xs = 0 then 1 else length xs * 2)) \<and>
            new_fails s' = tl (new_fails s) \<and> leaked s' = leaked s \<and>
            copy_calls s' = copy_calls s +
              (if is_nothrow_move_constructible T \<or> \<not> is_copy_constructible T then 0 else length xs) \<and>
            move_calls s' = move_calls s +
              (if is_nothrow_move_constructible T \<or> \<not> is_copy_constructible T then length xs else 0))
         \<or> (\<not> returns (InsertAndReallocate T a k mk s) \<and> (mk = None \<or> \<not> nothrow T \<or> new_throws s))"
proof (cases "xs = []")
  case True
  let ?bn = "length (blocks s)"
  let ?nd = "\<lparr>buffer' = Ptr ?bn 0, capacity' = Suc 0\<rparr>"
  from o True full have sz: "size' v = 0" and cap0: "capacity' (data' v) = 0"
    and buf: "buffer' (data' v) = Null"
    by (auto simp: owns_def split: ptr.splits)
  from k True have k0: "k = 0" by simp
  show ?thesis
  proof (cases "new_throws s")
    case nt: True
    have "\<not> returns (InsertAndReallocate T a k mk s)"
      using RawMemory_ctor_throws[OF _ nt, of "Suc 0"]
      by (simp add: InsertAndReallocate_def this_obj_def v sz)
    with nt show ?thesis by blast
  next
    case nt: False
    note ctor = RawMemory_ctor_ok[OF _ nt, of "Suc 0", simplified]
    show ?thesis
    proof (cases mk)
      case None
      have "\<not> returns (InsertAndReallocate T a k mk s)"
        by (simp add: InsertAndReallocate_def this_obj_def v sz k0 ctor None construct_at_def)
      with None show ?thesis by blast
    next
      case (Some x)
      let ?s2 = "put_block ?bn [Live x] (add_block (Suc 0) s)"
      have bn1: "block_at (add_block (Suc 0) s) ?bn = Some (replicate (Suc 0) Raw)"
        by (simp only: block_at_add_block) simp
      have pn: "placement_new (Ptr ?bn 0) x (add_block (Suc 0) s) = Return () ?s2"
        using placement_new_Raw[OF bn1, of 0 x] by simp
      have eq: "InsertAndReallocate T a k mk s = Return () (set_vec a (v\<lparr>data' := ?nd\<rparr>) ?s2)"
        using pn
        by (simp add: InsertAndReallocate_def this_obj_def v sz k0 buf ctor Some
            construct_at_def uninitialized_move_n_def uninitialized_copy_n_def
            RawMemory_Swap_def RawMemory_dtor_def Deallocate_def operator_delete_def)
      show ?thesis
        using True Some eq k0 by (simp add: block_at_put_block block_of_def)
    qed
  qed
next
  case False
  let ?n = "length xs"
  let ?nc = "?n * 2"
  let ?bn = "length (blocks s)"
  let ?s1 = "add_block ?nc s"
  let ?nd = "\<lparr>buffer' = Ptr ?bn 0, capacity' = ?nc\<rparr>"
  let ?D = "is_nothrow_move_constructible T \<or> \<not> is_copy_constructible T"
  let ?xs1 = "take k xs"
  let ?xs2 = "drop k xs"
  from o have sz: "size' v = ?n" by (simp add: owns_def)
  have n: "0 < ?n" using False by simp
  then have pos: "0 < ?nc" by simp
  have kc: "k < ?nc" using k n by arith
  show ?thesis
  proof (cases "new_throws s")
    case nt: True
    have "\<not> returns (InsertAndReallocate T a k mk s)"
      using RawMemory_ctor_throws[OF pos nt] n
      by (simp add: InsertAndReallocate_def this_obj_def v sz)
    with nt show ?thesis by blast
  next
    case nt: False
    note ctor = RawMemory_ctor_ok[OF pos nt]
    show ?thesis
    proof (cases mk)
      case None
      have "\<not> returns (InsertAndReallocate T a k mk s)"
        using n by (simp add: InsertAndReallocate_def this_obj_def v sz ctor None construct_at_def)
      with None show ?thesis by blast
    next
      case (Some x)
      let ?sn = "(replicate ?nc Raw)[k := Live x]"
      let ?s2 = "put_block ?bn ?sn ?s1"
      have bn1: "block_at ?s1 ?bn = Some (replicate ?nc Raw)"
        by (simp add: block_at_add_block)
      have pn: "placement_new (Ptr ?bn k) x ?s1 = Return () ?s2"
        by (rule placement_new_Raw[OF bn1]) (use kc in simp_all)
      have bn2: "block_at ?s2 ?bn = Some ?sn"
        by (simp add: block_at_put_block)
      from owns_nonempty_Ptr[OF o False] obtain bo where buf: "buffer' (data' v) = Ptr bo 0" ..
      from owns_PtrD[OF o buf] have "block_at s bo = Some (block_of xs (capacity' (data' v)))"
        by simp
      then have blk: "block_at s bo = Some (map Live xs)" using full[symmetric] by simp
      have bo: "bo < ?bn" using blk by (rule block_at_lt)
      have ne: "bo \<noteq> ?bn" using bo by simp
      have bo2: "block_at ?s2 bo = Some (map Live xs)"
        using blk bo by (simp add: block_at_put_block block_at_add_block)
      have src1: "slots_are (map Live xs) 0 (map Live ?xs1)"
        using k by (auto simp: slots_are_iff)
      have dst1: "slots_are ?sn 0 (replicate (length ?xs1) Raw)"
        using kc k fresh_block_prefix[OF kc, of x] by simp
      let ?R1 = "if ?D then uninitialized_move_n T (Ptr bo 0) (length ?xs1) (Ptr ?bn 0) ?s2
                 else uninitialized_copy_n T (Ptr bo 0) (length ?xs1) (Ptr ?bn 0) ?s2"
      let ?R2 = "\<lambda>s'. if ?D then uninitialized_move_n T (Ptr bo k) (length ?xs2) (Ptr ?bn (Suc k)) s'
                 else uninitialized_copy_n T (Ptr bo k) (length ?xs2) (Ptr ?bn (Suc k)) s'"
      have iar: "InsertAndReallocate T a k mk s =
        seq (unwind (seq (seq ?R1 (\<lambda>_. ?R2)) (\<lambda>_. destroy_n (Ptr bo 0) ?n)) (RawMemory_dtor ?nd))
          (\<lambda>_ s. RawMemory_dtor \<lparr>buffer' = Ptr bo 0, capacity' = ?n\<rparr>
                    (set_vec a (v\<lparr>data' := ?nd\<rparr>) s))"
        using n pn k
        by (simp add: InsertAndReallocate_def this_obj_def v sz full[symmetric] buf ctor Some
            construct_at_def RawMemory_Swap_def cong: if_cong)
      from relocate_spec[OF vs bo2 src1 bn2 ne dst1, of ?D]
      show ?thesis
      proof
        let ?zs1 = "if ?D then map (residue T) ?xs1 else ?xs1"
        let ?so3 = "patch (map Live xs) 0 (map Live ?zs1)"
        let ?sn3 = "patch ?sn 0 (map Live ?xs1)"
        let ?s3 = "(put_block ?bn ?sn3 (put_block bo ?so3 ?s2))
                   \<lparr>copy_calls := copy_calls ?s2 + (if ?D then 0 else length ?xs1),
                    move_calls := move_calls ?s2 + (if ?D then length ?xs1 else 0)\<rparr>"
        assume R1: "?R1 = Return () ?s3"
        have lz1: "length ?zs1 = k" using k by simp
        have bo3: "block_at ?s3 bo = Some ?so3"
          using ne bo by (simp add: block_at_put_block)
        have bn3: "block_at ?s3 ?bn = Some ?sn3"
          by (simp add: block_at_put_block)
        have "slots_are (map Live xs) k (map Live ?xs2)"
          using k by (auto simp: slots_are_iff)
        then have src2: "slots_are ?so3 k (map Live ?xs2)"
          by (rule slots_are_after_prefix_patch) (use lz1 in simp)
        have dst2: "slots_are ?sn3 (Suc k) (replicate (length ?xs2) Raw)"
          by (rule fresh_block_suffix) (use k n in simp_all)
        from relocate_spec[OF vs bo3 src2 bn3 ne dst2, of ?D]
        show ?thesis
        proof
          let ?zs2 = "if ?D then map (residue T) ?xs2 else ?xs2"
          let ?s4 = "(put_block ?bn (patch ?sn3 (Suc k) (map Live ?xs2))
                        (put_block bo (patch ?so3 k (map Live ?zs2)) ?s3))
                     \<lparr>copy_calls := copy_calls ?s3 + (if ?D then 0 else length ?xs2),
                      move_calls := move_calls ?s3 + (if ?D then length ?xs2 else 0)\<rparr>"
          assume R2: "?R2 ?s3 = Return () ?s4"
          let ?ws = "?zs1 @ ?zs2"
          have lw: "length ?ws = ?n" using k by simp
          have "patch ?so3 k (map Live ?zs2) = map Live ?ws"
            by (rule patch_two_halves) (use k in simp_all)
          then have bo4: "block_at ?s4 bo = Some (map Live ?ws)"
            using ne bo by (simp add: block_at_put_block)
          have srcw: "slots_are (map Live ?ws) 0 (map Live ?ws)" by (simp add: slots_are_def)
          let ?s5 = "put_block bo (replicate ?n Raw) ?s4"
          have "destroy_n (Ptr bo 0) (length ?ws) ?s4 =
            Return () (put_block bo (patch (map Live ?ws) 0 (replicate (length ?ws) Raw)) ?s4)"
            by (rule destroy_n_spec[OF bo4 srcw])
          then have d: "destroy_n (Ptr bo 0) ?n ?s4 = Return () ?s5"
            by (simp only: lw) (simp add: patch_all lw)
          let ?s6 = "set_vec a (v\<lparr>data' := ?nd\<rparr>) ?s5"
          have bo6: "block_at ?s6 bo = Some (replicate ?n Raw)"
            using bo by (simp add: block_at_put_block)
          have del: "RawMemory_dtor \<lparr>buffer' = Ptr bo 0, capacity' = ?n\<rparr> ?s6 = Return () (free_block bo ?s6)"
            using operator_delete_raw[OF bo6] by (simp add: RawMemory_dtor_def Deallocate_def)
          have inner: "seq (seq ?R1 (\<lambda>_. ?R2)) (\<lambda>_. destroy_n (Ptr bo 0) ?n) = Return () ?s5"
            unfolding R1 seq_simps unfolding R2 seq_simps by (rule d)
          have eq: "InsertAndReallocate T a k mk s = Return () (free_block bo ?s6)"
            unfolding iar inner unwind_simps seq_simps by (rule del)
          have b7: "block_at (free_block bo ?s6) ?bn = Some (block_of (?xs1 @ x # ?xs2) ?nc)"
            using ne n k
            by (simp add: block_at_free_block block_at_put_block fresh_block_insert)
          have cnt: "(if ?D then 0 else length ?xs1) + (if ?D then 0 else length ?xs2) = (if ?D then 0 else ?n)"
            "(if ?D then length ?xs1 else 0) + (if ?D then length ?xs2 else 0) = (if ?D then ?n else 0)"
            using k by simp_all
          have c7: "copy_calls (free_block bo ?s6) = copy_calls s + (if ?D then 0 else ?n)"
            "move_calls (free_block bo ?s6) = move_calls s + (if ?D then ?n else 0)"
            using cnt by (simp_all add: add.assoc)
          show ?thesis
            using Some eq b7 c7 False by simp
        next
          assume f: "\<not> returns (?R2 ?s3) \<and> \<not> nothrow T"
          have e: "seq ?R1 (\<lambda>_. ?R2) = ?R2 ?s3"
            unfolding R1 seq_simps by (rule refl)
          have g: "\<not> returns (seq (seq ?R1 (\<lambda>_. ?R2)) (\<lambda>_. destroy_n (Ptr bo 0) ?n))"
            unfolding e by (rule not_returns_seq) (rule f[THEN conjunct1])
          have "\<not> returns (InsertAndReallocate T a k mk s)"
            unfolding iar by (rule not_returns_seq, rule not_returns_unwind, rule g)
          with f show ?thesis by blast
        qed
      next
        assume f: "\<not> returns ?R1 \<and> \<not> nothrow T"
        have "\<not> returns (InsertAndReallocate T a k mk s)"
          unfolding iar
          by (rule not_returns_seq, rule not_returns_unwind, rule not_returns_seq,
              rule not_returns_seq, rule f[THEN conjunct1])
        with f show ?thesis by blast
      qed
    qed
  qed
qed

lemma move_backward_loop_spec:
  assumes vs: "value_semantics T"
  shows "block_at s b = Some sl \<Longrightarrow> slots_are sl f (map Live ys) \<Longrightarrow>
    f + length ys < length sl \<Longrightarrow> sl ! (f + length ys) = Live y0 \<Longrightarrow>
    (\<exists>z. move_backward_loop T (Ptr b (f + length ys)) (Ptr b (Suc (f + length ys))) (length ys) s =
            Return () (put_block b (patch sl f (Live z # map Live ys)) s))
    \<or> (\<not> returns (move_backward_loop T (Ptr b (f + length ys)) (Ptr b (Suc (f + length ys))) (length ys) s)
        \<and> \<not> nothrow T)"
proof (induction ys arbitrary: s sl y0 rule: rev_induct)
  case Nil
  have "slots_are sl f [Live y0]" using Nil by (simp add: slots_are_Cons)
  from patch_same[OF this] have "patch sl f [Live y0] = sl" .
  then show ?case using put_block_same[OF Nil(1)] by (intro disjI1 exI[of _ y0]) simp
next
  case (snoc y ys)
  let ?n = "length ys"
  from snoc.prems(2) have sa: "slots_are sl f (map Live ys)" and pl: "f + ?n < length sl"
    and pv: "sl ! (f + ?n) = Live y"
    by (simp_all add: slots_are_snoc)
  from snoc.prems(3,4) have dl: "Suc (f + ?n) < length sl" and dv: "sl ! Suc (f + ?n) = Live y0"
    by simp_all
  have b: "b < length (blocks s)" using snoc.prems(1) by (rule block_at_lt)
  let ?loop = "move_backward_loop T (Ptr b (f + length (ys @ [y]))) (Ptr b (Suc (f + length (ys @ [y]))))
      (length (ys @ [y])) s"
  show ?case
  proof (cases "move_assign T y0 y")
    case None
    then have "\<not> nothrow T" using nothrowD[of T y y0] by auto
    moreover have "\<not> returns ?loop"
      using move_assign_at_throws[OF snoc.prems(1) dl pl dv pv None] by simp
    ultimately show ?thesis by blast
  next
    case (Some yx)
    obtain y' x' where yx: "yx = (y', x')" by (cases yx)
    with Some vs have y': "y' = y" using value_semantics_move_assign[of T y0 y y' x'] by simp
    let ?sl1 = "sl[f + ?n := Live x', Suc (f + ?n) := Live y]"
    let ?s1 = "put_block b ?sl1 s"
    have ma: "move_assign_at T (Ptr b (Suc (f + ?n))) (Ptr b (f + ?n)) s = Return () ?s1"
      using move_assign_at_ok[OF snoc.prems(1) dl pl dv pv] Some yx y' by simp
    have step: "?loop = move_backward_loop T (Ptr b (f + ?n)) (Ptr b (Suc (f + ?n))) ?n ?s1"
      by (simp add: ma)
    have 1: "block_at ?s1 b = Some ?sl1" using b by (simp add: block_at_put_block)
    have 2: "slots_are ?sl1 f (map Live ys)"
      using sa by (simp add: slots_are_update_after)
    have 3: "f + ?n < length ?sl1" using pl by simp
    have 4: "?sl1 ! (f + ?n) = Live x'" using pl by simp
    have pe: "\<And>z. patch ?sl1 f (Live z # map Live ys) = patch sl f (Live z # map Live (ys @ [y]))"
    proof -
      fix z
      have "patch ?sl1 f (Live z # map Live ys) =
        patch ((sl[f + ?n := Live x'])[f + length (Live z # map Live ys) := Live y]) f (Live z # map Live ys)"
        by simp
      also have "\<dots> = patch (sl[f + ?n := Live x']) f ((Live z # map Live ys) @ [Live y])"
        by (rule patch_update_back) (use dl in simp)
      also have "\<dots> = patch sl f ((Live z # map Live ys) @ [Live y])"
        by (rule patch_update_inside) simp_all
      finally show "patch ?sl1 f (Live z # map Live ys) = patch sl f (Live z # map Live (ys @ [y]))"
        by simp
    qed
    from snoc.IH[OF 1 2 3 4]
    show ?thesis
    proof
      assume "\<exists>z. move_backward_loop T (Ptr b (f + ?n)) (Ptr b (Suc (f + ?n))) ?n ?s1 =
        Return () (put_block b (patch ?sl1 f (Live z # map Live ys)) ?s1)"
      then obtain z where "move_backward_loop T (Ptr b (f + ?n)) (Ptr b (Suc (f + ?n))) ?n ?s1 =
        Return () (put_block b (patch ?sl1 f (Live z # map Live ys)) ?s1)" ..
      then have "?loop = Return () (put_block b (patch sl f (Live z # map Live (ys @ [y]))) s)"
        unfolding step by (simp add: pe)
      then show ?thesis by blast
    next
      assume "\<not> returns (move_backward_loop T (Ptr b (f + ?n)) (Ptr b (Suc (f + ?n))) ?n ?s1) \<and> \<not> nothrow T"
      then show ?thesis unfolding step by blast
    qed
  qed
qed

lemma block_of_nth:
  "i < cap \<Longrightarrow> length xs \<le> cap \<Longrightarrow> block_of xs cap ! i = (if i < length xs then Live (xs ! i) else Raw)"
  by (simp add: block_of_def nth_append)

lemma insert_in_place_block:
  assumes c: "length xs < cap" and k: "k < length xs"
  shows "(patch ((block_of xs cap)[length xs - Suc 0 := Live x', length xs := Live (xs ! (length xs - Suc 0))])
            k (Live z # map Live (take (length xs - Suc 0 - k) (drop k xs))))[k := Live t] =
         block_of (take k xs @ t # drop k xs) cap"
    (is "?lhs = ?rhs")
proof (rule nth_equalityI)
  let ?n = "length xs"
  let ?sl2 = "(block_of xs cap)[?n - Suc 0 := Live x', ?n := Live (xs ! (?n - Suc 0))]"
  let ?cs = "Live z # map Live (take (?n - Suc 0 - k) (drop k xs))"
  have lcs: "length ?cs = ?n - k" using k by simp
  have l2: "length ?sl2 = cap" using c by simp
  have fit: "k + length ?cs \<le> length ?sl2" using k c lcs l2 by simp
  have ll: "length ?lhs = cap" using fit l2 by simp
  have lr: "length ?rhs = cap" using k c by simp
  show "length ?lhs = length ?rhs" using ll lr by simp
  fix i assume "i < length ?lhs"
  then have i: "i < cap" using ll by simp
  have il: "i < length ?sl2" using i l2 by simp
  have len_ins: "length (take k xs @ t # drop k xs) = Suc ?n" using k by simp
  have r: "?rhs ! i = (if i < Suc ?n then Live ((take k xs @ t # drop k xs) ! i) else Raw)"
    using block_of_nth[of i cap "take k xs @ t # drop k xs"] i c len_ins by simp
  have kn: "k + (?n - k) = ?n" using k by simp
  have p: "patch ?sl2 k ?cs ! i =
    (if i < k then ?sl2 ! i else if i < ?n then ?cs ! (i - k) else ?sl2 ! i)"
    using nth_patch[OF fit il] unfolding lcs kn .
  consider (lt) "i < k" | (eq) "i = k" | (mid) "k < i" "i < ?n" | (n) "i = ?n" | (gt) "?n < i"
    by arith
  then show "?lhs ! i = ?rhs ! i"
  proof cases
    case lt
    then show ?thesis using k c i r p l2 fit
      by (simp add: nth_append block_of_nth)
  next
    case eq
    then show ?thesis using k c i r l2 fit
      by (simp add: nth_append)
  next
    case mid
    then obtain j where j: "i = Suc (k + j)" using less_imp_Suc_add by blast
    with mid have jl: "k + j < ?n - Suc 0" by simp
    show ?thesis using k c i r p l2 fit mid j jl
      by (simp add: nth_append)
  next
    case n
    then show ?thesis using k c i r p l2 fit
      by (simp add: nth_append)
  next
    case gt
    then show ?thesis using k c i r p l2 fit
      by (simp add: nth_append block_of_nth)
  qed
qed

lemma InsertWithoutReallocating_spec:
  assumes vs: "value_semantics T" and v: "vecs s a = Some v" and o: "owns s v xs"
    and room: "length xs < capacity' (data' v)" and k: "k \<le> length xs"
    and buf: "buffer' (data' v) = Ptr b 0"
  shows "(\<exists>x. mk = Some x \<and>
            InsertWithoutReallocating T a (Ptr b k) k mk s =
              Return () ((put_block b (block_of (take k xs @ x # drop k xs) (capacity' (data' v))) s)
                         \<lparr>move_calls := move_calls s + (if k < length xs then 1 else 0)\<rparr>))
         \<or> (\<not> returns (InsertWithoutReallocating T a (Ptr b k) k mk s) \<and> (mk = None \<or> \<not> nothrow T))"
proof -
  let ?n = "length xs"
  let ?cap = "capacity' (data' v)"
  let ?sl = "block_of xs ?cap"
  let ?iwr = "InsertWithoutReallocating T a (Ptr b k) k mk s"
  from owns_PtrD[OF o buf] have sz: "size' v = ?n" and blk: "block_at s b = Some ?sl" by simp_all
  have bl: "b < length (blocks s)" using blk by (rule block_at_lt)
  have len: "length ?sl = ?cap" using room by simp
  show ?thesis
  proof (cases mk)
    case None
    have "?iwr = Throw elem_exn s"
      using room k
      by (simp add: InsertWithoutReallocating_def this_obj_def v Vector_end_def sz buf
          RawMemory_plus_def None construct_at_def)
    with None show ?thesis by simp
  next
    case (Some temp)
    show ?thesis
    proof (cases "k = ?n")
      case True
      have raw: "?sl ! ?n = Raw" using room by (simp add: block_of_nth_Raw)
      have nl: "?n < length ?sl" using room len by simp
      have pn: "placement_new (Ptr b ?n) temp s = Return () (put_block b (block_of (xs @ [temp]) ?cap) s)"
        using placement_new_Raw[OF blk nl raw] room by (simp add: block_of_snoc)
      have "?iwr = Return () (put_block b (block_of (xs @ [temp]) ?cap) s)"
        using room True pn
        by (simp add: InsertWithoutReallocating_def this_obj_def v Vector_end_def sz buf
            RawMemory_plus_def Some construct_at_def)
      with Some True show ?thesis by simp
    next
      case False
      note kne = False
      with k have kl: "k < ?n" by simp
      then have n1: "Suc 0 \<le> ?n" by simp
      let ?lastv = "xs ! (?n - Suc 0)"
      have lpl: "?n - Suc 0 < length ?sl" using kl room len by simp
      have lpv: "?sl ! (?n - Suc 0) = Live ?lastv" using kl by (simp add: block_of_nth_Live)
      have ldl: "load s (Ptr b (?n - Suc 0)) = Some ?lastv" by (rule load_Live[OF blk lpl lpv])
      show ?thesis
      proof (cases "move_construct T ?lastv")
        case None
        then have "\<not> nothrow T" using nothrowD[of T ?lastv] by auto
        moreover have "\<not> returns ?iwr"
          using room kl n1 ldl None
          by (simp add: InsertWithoutReallocating_def this_obj_def v Vector_end_def sz buf
              RawMemory_plus_def RawMemory_index_def Some)
        ultimately show ?thesis by blast
      next
        case mc: (Some yx)
        obtain y x' where yx: "yx = (y, x')" by (cases yx)
        with mc vs have y: "y = ?lastv" using value_semantics_move_construct[of T ?lastv y x'] by simp
        let ?sl1 = "?sl[?n - Suc 0 := Live x']"
        let ?s1 = "(put_block b ?sl1 s)\<lparr>move_calls := Suc (move_calls s)\<rparr>"
        let ?sl2 = "?sl1[?n := Live ?lastv]"
        let ?s2 = "(put_block b ?sl2 s)\<lparr>move_calls := Suc (move_calls s)\<rparr>"
        have ss: "(set_slot s (Ptr b (?n - Suc 0)) (Live x'))\<lparr>move_calls := Suc (move_calls s)\<rparr> = ?s1"
          using set_slot_put[OF blk] by simp
        have b1: "block_at ?s1 b = Some ?sl1" using bl by (simp add: block_at_put_block)
        have raw1: "?sl1 ! ?n = Raw" using room kl by (simp add: block_of_nth_Raw)
        have nl1: "?n < length ?sl1" using room len by simp
        have pn: "placement_new (Ptr b ?n) ?lastv ?s1 = Return () ?s2"
          using placement_new_Raw[OF b1 nl1 raw1] by simp
        let ?ys = "take (?n - Suc 0 - k) (drop k xs)"
        have ly: "length ?ys = ?n - Suc 0 - k" using kl by simp
        have kly: "k + length ?ys = ?n - Suc 0" using kl ly by simp
        let ?fin = "\<lambda>s. case load s (Ptr b k) of None \<Rightarrow> Undefined
              | Some y0 \<Rightarrow> (case move_assign T y0 temp of None \<Rightarrow> Throw elem_exn s
                           | Some (y', temp') \<Rightarrow> Return () (set_slot s (Ptr b k) (Live y')))"
        let ?loop = "move_backward_loop T (Ptr b (k + length ?ys)) (Ptr b (Suc (k + length ?ys)))
                       (length ?ys) ?s2"
        have ve: "Vector_end a s = Return (Ptr b ?n) s"
          using room by (simp add: Vector_end_def this_obj_def v sz buf RawMemory_plus_def)
        have ne: "Ptr b k \<noteq> Ptr b ?n" using kl by simp
        have n0: "size' v \<noteq> 0" using kl sz by (cases xs) simp_all
        have idx: "RawMemory_index (data' v) (size' v - Suc 0) s = Return (Ptr b (?n - Suc 0)) s"
          using kl room by (simp add: RawMemory_index_def sz buf)
        have vb: "Vector_begin a ?s2 = Return (Ptr b 0) ?s2"
          by (simp add: Vector_begin_def this_obj_def v buf RawMemory_plus_def)
        have ps: "ptr_sub (Ptr b ?n) 1 = Some (Ptr b (?n - Suc 0))"
          "ptr_sub (Ptr b ?n) (Suc 0) = Some (Ptr b (?n - Suc 0))"
          using n1 by simp_all
        have pd: "ptr_diff (Ptr b (?n - Suc 0)) (Ptr b k) = Some (length ?ys)"
          using kl ly by simp
        have sn: "Suc (?n - Suc 0) = ?n" using kl by arith
        have mb: "move_backward T (Ptr b k) (Ptr b (?n - Suc 0)) (Ptr b ?n) ?s2 = ?loop"
          unfolding move_backward_def pd kly by (simp add: sn)
        have iw: "?iwr = seq ?loop (\<lambda>_. ?fin)"
          unfolding InsertWithoutReallocating_def
          by (simp add: this_obj_def v ve kne n0 idx Some ldl mc yx y ss pn vb ps mb
              del: set_slot.simps ptr_sub.simps)
        have b2: "block_at ?s2 b = Some ?sl2" using bl by (simp add: block_at_put_block)
        have "slots_are ?sl k (map Live (drop k xs))"
          by (rule block_of_slots_from) (use room k in simp_all)
        then have sa: "slots_are ?sl2 k (map Live ?ys)"
          using kl room by (auto simp: slots_are_iff nth_list_update)
        have il: "k + length ?ys < length ?sl2" using kly kl room len by simp
        have iv: "?sl2 ! (k + length ?ys) = Live x'"
          unfolding kly using kl room len by simp
        from move_backward_loop_spec[OF vs b2 sa il iv]
        show ?thesis
        proof
          assume "\<exists>z. ?loop = Return () (put_block b (patch ?sl2 k (Live z # map Live ?ys)) ?s2)"
          then obtain z where lp: "?loop = Return () (put_block b (patch ?sl2 k (Live z # map Live ?ys)) ?s2)" ..
          let ?sl3 = "patch ?sl2 k (Live z # map Live ?ys)"
          let ?s3 = "put_block b ?sl3 ?s2"
          have b3: "block_at ?s3 b = Some ?sl3" using bl by (simp add: block_at_put_block)
          have fit: "k + length (Live z # map Live ?ys) \<le> length ?sl2"
            using il by simp
          have l3: "length ?sl3 = ?cap" using length_patch[OF fit] room len by simp
          have kl3: "k < length ?sl3" using l3 kl room by simp
          have "slots_are ?sl3 k (Live z # map Live ?ys)" by (rule slots_are_patch[OF fit])
          then have kv: "?sl3 ! k = Live z" by (simp add: slots_are_Cons)
          have ld3: "load ?s3 (Ptr b k) = Some z" by (rule load_Live[OF b3 kl3 kv])
          show ?thesis
          proof (cases "move_assign T z temp")
            case None
            then have "\<not> nothrow T" using nothrowD[of T temp z] by auto
            moreover have "\<not> returns ?iwr"
              unfolding iw lp using ld3 None by simp
            ultimately show ?thesis by blast
          next
            case ma: (Some yt)
            obtain y' t' where yt: "yt = (y', t')" by (cases yt)
            with ma vs have y': "y' = temp" using value_semantics_move_assign[of T z temp y' t'] by simp
            have fin: "?sl3[k := Live temp] = block_of (take k xs @ temp # drop k xs) ?cap"
              using insert_in_place_block[OF room kl, of x' z temp] by simp
            have "?iwr = Return () (put_block b (?sl3[k := Live temp]) ?s3)"
              unfolding iw lp using ld3 ma yt y' set_slot_put[OF b3, of k "Live temp"]
              by (simp del: set_slot.simps)
            then have "?iwr = Return () ((put_block b (block_of (take k xs @ temp # drop k xs) ?cap) s)
                         \<lparr>move_calls := move_calls s + 1\<rparr>)"
              unfolding fin by simp
            with Some kl show ?thesis by simp
          qed
        next
          assume f: "\<not> returns ?loop \<and> \<not> nothrow T"
          have "\<not> returns ?iwr" unfolding iw by (rule not_returns_seq) (rule f[THEN conjunct1])
          with f show ?thesis by blast
        qed
      qed
    qed
  qed
qed

lemma Emplace_spec:
  assumes vs: "value_semantics T" and h: "holds s a xs" and k: "k \<le> length xs"
    and pos: "position s a k = Some pos"
  shows "(\<exists>x r s'. mk = Some x \<and> Emplace T a pos mk s = Return r s' \<and>
            holds s' a (take k xs @ x # drop k xs) \<and> position s' a k = Some r \<and>
            load s' r = Some x \<and>
            cap_of s' a = (if length xs = cap_of s a
                           then (if length xs = 0 then 1 else length xs * 2) else cap_of s a) \<and>
            copy_calls s' = copy_calls s +
              (if length xs = cap_of s a \<and> \<not> (is_nothrow_move_constructible T \<or> \<not> is_copy_constructible T)
               then length xs else 0) \<and>
            move_calls s' = move_calls s +
              (if length xs = cap_of s a
               then (if is_nothrow_move_constructible T \<or> \<not> is_copy_constructible T then length xs else 0)
               else (if k < length xs then 1 else 0)) \<and>
            (length xs = cap_of s a \<longrightarrow> position s' a 0 = Some (Ptr (length (blocks s)) 0)))
         \<or> (\<not> returns (Emplace T a pos mk s) \<and>
             (mk = None \<or> \<not> nothrow T \<or> (length xs = cap_of s a \<and> new_throws s)))"
proof -
  from holdsD[OF h] obtain v where v: "vecs s a = Some v" and o: "owns s v xs" by blast
  from o have sz: "size' v = length xs" and le: "length xs \<le> capacity' (data' v)"
    by (simp_all add: owns_def)
  have cap: "cap_of s a = capacity' (data' v)" using v by (simp add: cap_of_def)
  let ?n = "length xs"
  let ?ins = "\<lambda>x. take k xs @ x # drop k xs"
  have lins: "\<And>x. length (?ins x) = Suc ?n" using k by simp
  have kins: "\<And>x. ?ins x ! k = x" using k by (simp add: nth_append)
  let ?tail = "\<lambda>(_::unit) s. seq (this_obj a s) (\<lambda>v' s.
      seq (Vector_begin a (set_vec a (v'\<lparr>size' := size' v' + 1\<rparr>) s))
        (\<lambda>b' s. case ptr_add b' k of None \<Rightarrow> Undefined | Some r \<Rightarrow> Return r s))"
  show ?thesis
  proof (cases "?n = capacity' (data' v)")
    case True
    let ?nc = "if ?n = 0 then 1 else ?n * 2"
    let ?bn = "length (blocks s)"
    let ?nd = "\<lparr>buffer' = Ptr ?bn 0, capacity' = ?nc\<rparr>"
    have em: "Emplace T a pos mk s = seq (InsertAndReallocate T a k mk s) ?tail"
    proof (cases "buffer' (data' v)")
      case Null
      with pos v k have "pos = Null" "k = 0" by (cases k; simp add: position_def)+
      moreover from owns_NullD[OF o Null] have "capacity' (data' v) = 0" "size' v = 0" by simp_all
      ultimately show ?thesis
        using Null True
        by (simp add: Emplace_def Vector_begin_def Vector_end_def this_obj_def v sz
            RawMemory_plus_def)
    next
      case (Ptr b i)
      from owns_PtrD[OF o Ptr] have i: "i = 0" by simp
      with pos v Ptr have "pos = Ptr b k" by (simp add: position_def)
      then show ?thesis
        using Ptr i True k le
        by (simp add: Emplace_def Vector_begin_def Vector_end_def this_obj_def v sz
            RawMemory_plus_def)
    qed
    from InsertAndReallocate_spec[OF vs v o True k, of mk]
    show ?thesis
    proof
      assume "\<exists>x s'. mk = Some x \<and> InsertAndReallocate T a k mk s = Return () s' \<and>
            vecs s' = (vecs s)(a \<mapsto> v\<lparr>data' := ?nd\<rparr>) \<and>
            block_at s' ?bn = Some (block_of (?ins x) ?nc) \<and>
            new_fails s' = tl (new_fails s) \<and> leaked s' = leaked s \<and>
            copy_calls s' = copy_calls s +
              (if is_nothrow_move_constructible T \<or> \<not> is_copy_constructible T then 0 else ?n) \<and>
            move_calls s' = move_calls s +
              (if is_nothrow_move_constructible T \<or> \<not> is_copy_constructible T then ?n else 0)"
      then obtain x s1 where mk: "mk = Some x"
        and iar: "InsertAndReallocate T a k mk s = Return () s1"
        and vs1: "vecs s1 a = Some (v\<lparr>data' := ?nd\<rparr>)"
        and blk1: "block_at s1 ?bn = Some (block_of (?ins x) ?nc)"
        and cc: "copy_calls s1 = copy_calls s +
              (if is_nothrow_move_constructible T \<or> \<not> is_copy_constructible T then 0 else ?n)"
        and mc: "move_calls s1 = move_calls s +
              (if is_nothrow_move_constructible T \<or> \<not> is_copy_constructible T then ?n else 0)"
        by auto
      let ?v' = "\<lparr>data' = ?nd, size' = Suc ?n\<rparr>"
      let ?s' = "set_vec a ?v' s1"
      have eq: "Emplace T a pos mk s = Return (Ptr ?bn k) ?s'"
        unfolding em iar
        by (simp add: this_obj_def vs1 sz Vector_begin_def RawMemory_plus_def)
      have lt: "Suc ?n \<le> ?nc" by (cases xs) simp_all
      have ow: "owns ?s' ?v' (?ins x)"
        using blk1 lt lins by (simp add: owns_def)
      have kc: "k < length (block_of (?ins x) ?nc)" using k lt lins by simp
      have ld: "load ?s' (Ptr ?bn k) = Some x"
        by (rule load_Live[where sl = "block_of (?ins x) ?nc"])
          (use blk1 kc k lins kins in \<open>simp_all add: block_of_nth_Live\<close>)
      have "holds ?s' a (?ins x) \<and> position ?s' a k = Some (Ptr ?bn k) \<and> cap_of ?s' a = ?nc \<and>
          position ?s' a 0 = Some (Ptr ?bn 0)"
        using ow by (simp add: holds_def position_def cap_of_def)
      with mk eq ld cc mc True cap show ?thesis by auto
    next
      assume f: "\<not> returns (InsertAndReallocate T a k mk s) \<and> (mk = None \<or> \<not> nothrow T \<or> new_throws s)"
      have "\<not> returns (Emplace T a pos mk s)"
        unfolding em by (rule not_returns_seq) (rule f[THEN conjunct1])
      with f True cap show ?thesis by auto
    qed
  next
    case False
    with le have room: "?n < capacity' (data' v)" by simp
    then have "0 < capacity' (data' v)" by simp
    from owns_room_Ptr[OF o this] obtain b where buf: "buffer' (data' v) = Ptr b 0" ..
    from owns_PtrD[OF o buf] have blk: "block_at s b = Some (block_of xs (capacity' (data' v)))"
      by simp
    have bl: "b < length (blocks s)" using blk by (rule block_at_lt)
    have p: "pos = Ptr b k" using pos v buf by (simp add: position_def)
    let ?cap = "capacity' (data' v)"
    have em: "Emplace T a pos mk s =
      seq (unwind (InsertWithoutReallocating T a (Ptr b k) k mk s)
             (\<lambda>s. seq (Vector_end a s) operator_delete)) ?tail"
      using False k room
      by (simp add: Emplace_def Vector_begin_def Vector_end_def this_obj_def v sz buf p
          RawMemory_plus_def)
    from InsertWithoutReallocating_spec[OF vs v o room k buf, of mk]
    show ?thesis
    proof
      assume "\<exists>x. mk = Some x \<and> InsertWithoutReallocating T a (Ptr b k) k mk s =
        Return () ((put_block b (block_of (?ins x) ?cap) s)
                   \<lparr>move_calls := move_calls s + (if k < ?n then 1 else 0)\<rparr>)"
      then obtain x where mk: "mk = Some x"
        and iwr: "InsertWithoutReallocating T a (Ptr b k) k mk s =
        Return () ((put_block b (block_of (?ins x) ?cap) s)
                   \<lparr>move_calls := move_calls s + (if k < ?n then 1 else 0)\<rparr>)" by blast
      let ?s1 = "(put_block b (block_of (?ins x) ?cap) s)
                   \<lparr>move_calls := move_calls s + (if k < ?n then 1 else 0)\<rparr>"
      let ?v' = "v\<lparr>size' := Suc ?n\<rparr>"
      let ?s' = "set_vec a ?v' ?s1"
      have eq: "Emplace T a pos mk s = Return (Ptr b k) ?s'"
        unfolding em iwr
        by (simp add: this_obj_def v sz Vector_begin_def RawMemory_plus_def buf)
      have blk': "block_at ?s' b = Some (block_of (?ins x) ?cap)"
        using bl by (simp add: block_at_put_block)
      have ow: "owns ?s' ?v' (?ins x)"
        using blk' room buf lins by (simp add: owns_def)
      have kc: "k < length (block_of (?ins x) ?cap)" using k room lins by simp
      have ld: "load ?s' (Ptr b k) = Some x"
        by (rule load_Live[OF blk' kc]) (use k lins kins in \<open>simp add: block_of_nth_Live\<close>)
      have "holds ?s' a (?ins x) \<and> position ?s' a k = Some (Ptr b k) \<and> cap_of ?s' a = cap_of s a"
        using ow buf cap by (simp add: holds_def position_def cap_of_def)
      with mk eq ld False cap show ?thesis by auto
    next
      assume f: "\<not> returns (InsertWithoutReallocating T a (Ptr b k) k mk s) \<and> (mk = None \<or> \<not> nothrow T)"
      have "\<not> returns (Emplace T a pos mk s)"
        unfolding em by (rule not_returns_seq, rule not_returns_unwind, rule f[THEN conjunct1])
      with f show ?thesis by auto
    qed
  qed
qed


lemma ab_reached:
  "seq (PushBack string_ops 0 ''a'' start) (\<lambda>_. PushBack string_ops 0 ''b'') = Return () ab"
  by (simp add: alloc_defs elem_defs vector_defs start_def ab_def string_ops_def fun_eq_iff
      eval_nat_numeral)

lemma holds_ab: "holds ab 0 [''a'', ''b'']"
  by (simp add: holds_def owns_def ab_def block_at_def block_of_def eval_nat_numeral)

lemma holds_size_of: "holds s a xs \<Longrightarrow> size_of s a = length xs"
  by (auto simp: holds_def owns_def size_of_def split: option.splits)

text \<open>Claim C5: for an array that holds \<open>xs\<close> and an offset \<open>k\<close> up to its size,
  \<open>emplace\<close> and \<open>insert\<close> at \<open>begin() + k\<close>, when they return, leave the array
  holding \<open>xs\<close> with the new value at position \<open>k\<close>, the elements before and after it
  in their order, with size one larger; the returned iterator is \<open>begin() + k\<close> of
  the array as it is then and points at the new element. This covers the path that
  reallocates (the array is full) and the in-place path. The call returns when the
  construction of the new value and the members of \<open>T\<close> do not throw and, for a full
  array, \<open>operator new\<close> does not.\<close>

theorem emplace_inserts:
  assumes vs: "value_semantics T" and h: "holds s a xs" and k: "k \<le> length xs"
    and pos: "position s a k = Some pos"
  shows "(\<forall>mk r s'. Emplace T a pos mk s = Return r s' \<longrightarrow>
            (\<exists>x. mk = Some x \<and> holds s' a (take k xs @ x # drop k xs) \<and>
                 size_of s' a = Suc (length xs) \<and> position s' a k = Some r \<and> load s' r = Some x)) \<and>
         (\<forall>x r s'. Insert T a pos x s = Return r s' \<longrightarrow>
            holds s' a (take k xs @ x # drop k xs) \<and>
            size_of s' a = Suc (length xs) \<and> position s' a k = Some r \<and> load s' r = Some x) \<and>
         (\<forall>x. nothrow T \<and> (length xs = cap_of s a \<longrightarrow> \<not> new_throws s) \<longrightarrow>
            returns (Emplace T a pos (Some x) s) \<and> returns (Insert T a pos x s))"
proof (intro conjI allI impI)
  fix mk r s' assume e: "Emplace T a pos mk s = Return r s'"
  from Emplace_spec[OF vs h k pos, of mk] e
  obtain x where x: "mk = Some x" "holds s' a (take k xs @ x # drop k xs)"
    "position s' a k = Some r" "load s' r = Some x"
    by (auto simp: returns_iff)
  from holds_size_of[OF x(2)] k have "size_of s' a = Suc (length xs)" by simp
  with x show "\<exists>x. mk = Some x \<and> holds s' a (take k xs @ x # drop k xs) \<and>
                 size_of s' a = Suc (length xs) \<and> position s' a k = Some r \<and> load s' r = Some x"
    by blast
next
  fix x r s' assume i: "Insert T a pos x s = Return r s'"
  then have e: "Emplace T a pos (copy_construct T x) s = Return r s'" by (simp add: Insert_def)
  from Emplace_spec[OF vs h k pos, of "copy_construct T x"] e
  obtain y where y: "copy_construct T x = Some y" "holds s' a (take k xs @ y # drop k xs)"
    "position s' a k = Some r" "load s' r = Some y"
    by (auto simp: returns_iff)
  from vs y(1) have yx: "y = x" by (auto simp: value_semantics_def)
  from holds_size_of[OF y(2)] k have "size_of s' a = Suc (length xs)" by simp
  with y yx show "holds s' a (take k xs @ x # drop k xs)" "size_of s' a = Suc (length xs)"
    "position s' a k = Some r" "load s' r = Some x"
    by simp_all
next
  fix x assume a: "nothrow T \<and> (length xs = cap_of s a \<longrightarrow> \<not> new_throws s)"
  from Emplace_spec[OF vs h k pos, of "Some x"] a
  show "returns (Emplace T a pos (Some x) s)" by (auto simp: returns_iff)
  from a nothrowD[of T x] obtain y where y: "copy_construct T x = Some y" by auto
  from Emplace_spec[OF vs h k pos, of "copy_construct T x"] a y
  show "returns (Insert T a pos x s)" by (auto simp: returns_iff Insert_def)
qed

theorem emplace_inserts_witness:
  "value_semantics string_ops \<and> nothrow string_ops \<and>
   holds abc 0 [''a'', ''b'', ''c''] \<and> (1 :: nat) \<le> length [''a'', ''b'', ''c''] \<and>
   position abc 0 1 = Some (Ptr 2 1) \<and> cap_of abc 0 = 4 \<and>
   (\<exists>r s'. Emplace string_ops 0 (Ptr 2 1) (Some ''x'') abc = Return r s' \<and>
      holds s' 0 [''a'', ''x'', ''b'', ''c''] \<and> size_of s' 0 = 4 \<and>
      position s' 0 1 = Some r \<and> load s' r = Some ''x'') \<and>
   holds ab 0 [''a'', ''b''] \<and> position ab 0 1 = Some (Ptr 1 1) \<and> cap_of ab 0 = 2 \<and>
   \<not> new_throws ab \<and>
   (\<exists>r s'. Insert string_ops 0 (Ptr 1 1) ''x'' ab = Return r s' \<and>
      holds s' 0 [''a'', ''x'', ''b''] \<and> size_of s' 0 = 3 \<and>
      position s' 0 1 = Some r \<and> load s' r = Some ''x'')"
proof -
  have k1: "(1 :: nat) \<le> length [''a'', ''b'', ''c'']" and k2: "(1 :: nat) \<le> length [''a'', ''b'']"
    by simp_all
  have p1: "position abc 0 1 = Some (Ptr 2 1)" and c1: "cap_of abc 0 = 4"
    by (simp_all add: position_def cap_of_def abc_def)
  have p2: "position ab 0 1 = Some (Ptr 1 1)" and c2: "cap_of ab 0 = 2"
    and nt: "\<not> new_throws ab"
    by (simp_all add: position_def cap_of_def ab_def new_throws_def)
  note m1 = emplace_inserts[OF value_semantics_string holds_abc k1 p1]
  note m2 = emplace_inserts[OF value_semantics_string holds_ab k2 p2]
  from m1 nothrow_string c1 have "returns (Emplace string_ops 0 (Ptr 2 1) (Some ''x'') abc)"
    by simp
  then obtain r1 s1 where e1: "Emplace string_ops 0 (Ptr 2 1) (Some ''x'') abc = Return r1 s1"
    by (auto simp: returns_iff)
  from m1 e1 have w1: "holds s1 0 (take 1 [''a'', ''b'', ''c''] @ ''x'' # drop 1 [''a'', ''b'', ''c''])"
    "size_of s1 0 = Suc (length [''a'', ''b'', ''c''])" "position s1 0 1 = Some r1"
    "load s1 r1 = Some ''x''"
    by fastforce+
  from m2 nothrow_string nt have "returns (Insert string_ops 0 (Ptr 1 1) ''x'' ab)"
    by simp
  then obtain r2 s2 where e2: "Insert string_ops 0 (Ptr 1 1) ''x'' ab = Return r2 s2"
    by (auto simp: returns_iff)
  from m2 e2 have w2: "holds s2 0 (take 1 [''a'', ''b''] @ ''x'' # drop 1 [''a'', ''b''])"
    "size_of s2 0 = Suc (length [''a'', ''b''])" "position s2 0 1 = Some r2"
    "load s2 r2 = Some ''x''"
    by blast+
  from e1 w1 e2 w2 show ?thesis
    using value_semantics_string nothrow_string holds_abc holds_ab p1 p2 c1 c2 nt by simp
qed

lemma patch_fresh_all:
  "length xs \<le> m \<Longrightarrow> patch (replicate m Raw) 0 (map Live xs) = block_of xs m"
  by (simp add: patch_def block_of_def)

lemma Reserve_noop:
  "vecs s a = Some v \<Longrightarrow> m \<le> capacity' (data' v) \<Longrightarrow> Reserve T a m s = Return () s"
  by (simp add: Reserve_def this_obj_def)

lemma Reserve_grow:
  assumes vs: "value_semantics T" and v: "vecs s a = Some v" and o: "owns s v xs"
    and gt: "capacity' (data' v) < m"
  shows "(\<exists>s'. Reserve T a m s = Return () s' \<and>
            vecs s' = (vecs s)(a \<mapsto> v\<lparr>data' := \<lparr>buffer' = Ptr (length (blocks s)) 0, capacity' = m\<rparr>\<rparr>) \<and>
            block_at s' (length (blocks s)) = Some (block_of xs m) \<and>
            new_fails s' = tl (new_fails s) \<and> leaked s' = leaked s \<and>
            copy_calls s' = copy_calls s +
              (if is_nothrow_move_constructible T \<or> \<not> is_copy_constructible T then 0 else length xs) \<and>
            move_calls s' = move_calls s +
              (if is_nothrow_move_constructible T \<or> \<not> is_copy_constructible T then length xs else 0))
         \<or> (\<not> returns (Reserve T a m s) \<and> (\<not> nothrow T \<or> new_throws s))"
proof -
  let ?n = "length xs"
  let ?cap = "capacity' (data' v)"
  let ?bn = "length (blocks s)"
  let ?s1 = "add_block m s"
  let ?nd = "\<lparr>buffer' = Ptr ?bn 0, capacity' = m\<rparr>"
  let ?D = "is_nothrow_move_constructible T \<or> \<not> is_copy_constructible T"
  from o have sz: "size' v = ?n" and le: "?n \<le> ?cap" by (simp_all add: owns_def)
  have pos: "0 < m" using gt by simp
  have ngt: "\<not> m \<le> ?cap" using gt by simp
  show ?thesis
  proof (cases "new_throws s")
    case nt: True
    have "\<not> returns (Reserve T a m s)"
      using RawMemory_ctor_throws[OF pos nt] ngt
      by (simp add: Reserve_def this_obj_def v)
    with nt show ?thesis by blast
  next
    case nt: False
    note ctor = RawMemory_ctor_ok[OF pos nt]
    have bn1: "block_at ?s1 ?bn = Some (replicate m Raw)"
      by (simp add: block_at_add_block)
    show ?thesis
    proof (cases "buffer' (data' v)")
      case Null
      from owns_NullD[OF o Null] have x0: "xs = []" and c0: "?cap = 0" by simp_all
      have eq: "Reserve T a m s = Return () (set_vec a (v\<lparr>data' := ?nd\<rparr>) ?s1)"
        using ngt x0
        by (simp add: Reserve_def this_obj_def v sz Null ctor
            uninitialized_move_n_def uninitialized_copy_n_def
            RawMemory_Swap_def RawMemory_dtor_def Deallocate_def operator_delete_def)
      show ?thesis
        using eq x0 bn1 by simp
    next
      case (Ptr bo i)
      from owns_PtrD[OF o Ptr] have i: "i = 0"
        and blk: "block_at s bo = Some (block_of xs ?cap)" by simp_all
      have bo: "bo < ?bn" using blk by (rule block_at_lt)
      have ne: "bo \<noteq> ?bn" using bo by simp
      have bo1: "block_at ?s1 bo = Some (block_of xs ?cap)"
        using blk bo by (simp add: block_at_add_block)
      have dst: "slots_are (replicate m Raw) 0 (replicate ?n Raw)"
        using le gt by (simp add: slots_are_def)
      let ?R = "if ?D then uninitialized_move_n T (Ptr bo 0) ?n (Ptr ?bn 0) ?s1
                else uninitialized_copy_n T (Ptr bo 0) ?n (Ptr ?bn 0) ?s1"
      have rs: "Reserve T a m s =
        seq (unwind (seq ?R (\<lambda>_. destroy_n (Ptr bo 0) ?n)) (RawMemory_dtor ?nd))
          (\<lambda>_ s. RawMemory_dtor \<lparr>buffer' = Ptr bo 0, capacity' = ?cap\<rparr>
                    (set_vec a (v\<lparr>data' := ?nd\<rparr>) s))"
        using ngt
        by (simp add: Reserve_def this_obj_def v sz Ptr i ctor RawMemory_Swap_def cong: if_cong)
      from relocate_spec[OF vs bo1 block_of_slots(1)[OF le] bn1 ne dst, of ?D]
      show ?thesis
      proof
        let ?zs = "if ?D then map (residue T) xs else xs"
        let ?so3 = "patch (block_of xs ?cap) 0 (map Live ?zs)"
        let ?s3 = "(put_block ?bn (patch (replicate m Raw) 0 (map Live xs)) (put_block bo ?so3 ?s1))
                   \<lparr>copy_calls := copy_calls ?s1 + (if ?D then 0 else ?n),
                    move_calls := move_calls ?s1 + (if ?D then ?n else 0)\<rparr>"
        assume R: "?R = Return () ?s3"
        have lz: "length ?zs = ?n" by simp
        have bo3: "block_at ?s3 bo = Some ?so3"
          using ne bo by (simp add: block_at_put_block)
        have srcz: "slots_are ?so3 0 (map Live ?zs)"
          by (rule slots_are_patch) (use le in simp)
        have pp: "patch ?so3 0 (replicate (length ?zs) Raw) = replicate ?cap Raw"
        proof -
          have "patch ?so3 0 (replicate (length ?zs) Raw) =
            patch (block_of xs ?cap) 0 (replicate (length ?zs) Raw)"
            by (rule patch_patch) (use le in simp_all)
          also have "\<dots> = replicate ?cap Raw"
            unfolding lz by (rule patch_block_of_Raw[OF le])
          finally show ?thesis .
        qed
        let ?s4 = "put_block bo (replicate ?cap Raw) ?s3"
        have "destroy_n (Ptr bo 0) (length ?zs) ?s3 =
          Return () (put_block bo (patch ?so3 0 (replicate (length ?zs) Raw)) ?s3)"
          by (rule destroy_n_spec[OF bo3 srcz])
        then have d: "destroy_n (Ptr bo 0) ?n ?s3 = Return () ?s4"
          unfolding pp unfolding lz .
        let ?s5 = "set_vec a (v\<lparr>data' := ?nd\<rparr>) ?s4"
        have bo5: "block_at ?s5 bo = Some (replicate ?cap Raw)"
          using bo by (simp add: block_at_put_block)
        have del: "RawMemory_dtor \<lparr>buffer' = Ptr bo 0, capacity' = ?cap\<rparr> ?s5 = Return () (free_block bo ?s5)"
          using operator_delete_raw[OF bo5] by (simp add: RawMemory_dtor_def Deallocate_def)
        have inner: "seq ?R (\<lambda>_. destroy_n (Ptr bo 0) ?n) = Return () ?s4"
          unfolding R seq_simps by (rule d)
        have eq: "Reserve T a m s = Return () (free_block bo ?s5)"
          unfolding rs inner unwind_simps seq_simps by (rule del)
        have b7: "block_at (free_block bo ?s5) ?bn = Some (block_of xs m)"
          using ne le gt
          by (simp add: block_at_free_block block_at_put_block patch_fresh_all)
        show ?thesis
          using eq b7 by simp
      next
        assume f: "\<not> returns ?R \<and> \<not> nothrow T"
        have "\<not> returns (Reserve T a m s)"
          unfolding rs
          by (rule not_returns_seq, rule not_returns_unwind, rule not_returns_seq,
              rule f[THEN conjunct1])
        with f show ?thesis by blast
      qed
    qed
  qed
qed

lemma five_reached: "EmplaceBack thrower_ops 0 (Some 5) start = Return (Ptr 0 0) five"
  by (simp add: alloc_defs elem_defs vector_defs start_def five_def thrower_ops_def fun_eq_iff
      eval_nat_numeral)

lemma holds_five: "holds five 0 [5]"
  by (simp add: holds_def owns_def five_def block_at_def block_of_def)

lemma value_semantics_thrower: "value_semantics thrower_ops"
  by (simp add: value_semantics_def thrower_ops_def)

lemma Reserve_relocates:
  assumes vs: "value_semantics T" and h: "holds s a xs" and gt: "cap_of s a < m"
  shows "(\<exists>s'. Reserve T a m s = Return () s' \<and> holds s' a xs \<and> cap_of s' a = m \<and>
            position s' a 0 = Some (Ptr (length (blocks s)) 0) \<and> relocated T (length xs) s s')
         \<or> (\<not> returns (Reserve T a m s) \<and> (\<not> nothrow T \<or> new_throws s))"
proof -
  from holdsD[OF h] obtain v where v: "vecs s a = Some v" and o: "owns s v xs" by blast
  from o have sz: "size' v = length xs" and le: "length xs \<le> capacity' (data' v)"
    by (simp_all add: owns_def)
  have cap: "capacity' (data' v) < m" using gt v by (simp add: cap_of_def)
  let ?bn = "length (blocks s)"
  let ?v' = "v\<lparr>data' := \<lparr>buffer' = Ptr ?bn 0, capacity' = m\<rparr>\<rparr>"
  from Reserve_grow[OF vs v o cap]
  show ?thesis
  proof
    assume "\<exists>s'. Reserve T a m s = Return () s' \<and> vecs s' = (vecs s)(a \<mapsto> ?v') \<and>
            block_at s' ?bn = Some (block_of xs m) \<and>
            new_fails s' = tl (new_fails s) \<and> leaked s' = leaked s \<and>
            copy_calls s' = copy_calls s +
              (if is_nothrow_move_constructible T \<or> \<not> is_copy_constructible T then 0 else length xs) \<and>
            move_calls s' = move_calls s +
              (if is_nothrow_move_constructible T \<or> \<not> is_copy_constructible T then length xs else 0)"
    then obtain s' where eq: "Reserve T a m s = Return () s'"
      and v': "vecs s' a = Some ?v'" and blk: "block_at s' ?bn = Some (block_of xs m)"
      and cc: "copy_calls s' = copy_calls s +
              (if is_nothrow_move_constructible T \<or> \<not> is_copy_constructible T then 0 else length xs)"
      and mc: "move_calls s' = move_calls s +
              (if is_nothrow_move_constructible T \<or> \<not> is_copy_constructible T then length xs else 0)"
      by auto
    have "owns s' ?v' xs" using sz le cap blk by (simp add: owns_def)
    then have "holds s' a xs" using v' by (simp add: holds_def)
    moreover have "cap_of s' a = m" "position s' a 0 = Some (Ptr ?bn 0)"
      using v' by (simp_all add: cap_of_def position_def)
    moreover have "relocated T (length xs) s s'" using cc mc by (simp add: relocated_def)
    ultimately show ?thesis using eq by blast
  next
    assume "\<not> returns (Reserve T a m s) \<and> (\<not> nothrow T \<or> new_throws s)"
    then show ?thesis by blast
  qed
qed

lemma EmplaceBack_relocates:
  assumes vs: "value_semantics T" and h: "holds s a xs" and full: "length xs = cap_of s a"
  shows "(\<exists>x r s'. mk = Some x \<and> EmplaceBack T a mk s = Return r s' \<and> holds s' a (xs @ [x]) \<and>
            cap_of s' a = (if length xs = 0 then 1 else length xs * 2) \<and>
            position s' a 0 = Some (Ptr (length (blocks s)) 0) \<and> relocated T (length xs) s s')
         \<or> (\<not> returns (EmplaceBack T a mk s) \<and> (mk = None \<or> \<not> nothrow T \<or> new_throws s))"
proof -
  from holdsD[OF h] obtain v where v: "vecs s a = Some v" and o: "owns s v xs" by blast
  have cap: "length xs = capacity' (data' v)" using full v by (simp add: cap_of_def)
  let ?bn = "length (blocks s)"
  let ?nc = "if length xs = 0 then 1 else length xs * 2"
  let ?v' = "\<lparr>data' = \<lparr>buffer' = Ptr ?bn 0, capacity' = ?nc\<rparr>, size' = Suc (length xs)\<rparr>"
  from EmplaceBack_grow[OF vs v o cap, of mk]
  show ?thesis
  proof
    assume "\<exists>x s'. mk = Some x \<and>
            EmplaceBack T a mk s = Return (Ptr ?bn (length xs)) s' \<and>
            vecs s' = (vecs s)(a \<mapsto> ?v') \<and>
            block_at s' ?bn = Some (block_of (xs @ [x]) ?nc) \<and>
            new_fails s' = tl (new_fails s) \<and> leaked s' = leaked s \<and>
            copy_calls s' = copy_calls s +
              (if is_nothrow_move_constructible T \<or> \<not> is_copy_constructible T then 0 else length xs) \<and>
            move_calls s' = move_calls s +
              (if is_nothrow_move_constructible T \<or> \<not> is_copy_constructible T then length xs else 0)"
    then obtain x s' where mk: "mk = Some x"
      and eq: "EmplaceBack T a mk s = Return (Ptr ?bn (length xs)) s'"
      and v': "vecs s' a = Some ?v'" and blk: "block_at s' ?bn = Some (block_of (xs @ [x]) ?nc)"
      and cc: "copy_calls s' = copy_calls s +
              (if is_nothrow_move_constructible T \<or> \<not> is_copy_constructible T then 0 else length xs)"
      and mc: "move_calls s' = move_calls s +
              (if is_nothrow_move_constructible T \<or> \<not> is_copy_constructible T then length xs else 0)"
      by auto
    have lt: "Suc (length xs) \<le> ?nc" by (cases xs) simp_all
    have "owns s' ?v' (xs @ [x])" using lt blk by (simp add: owns_def)
    then have "holds s' a (xs @ [x])" using v' by (simp add: holds_def)
    moreover have "cap_of s' a = ?nc" "position s' a 0 = Some (Ptr ?bn 0)"
      using v' by (simp_all add: cap_of_def position_def)
    moreover have "relocated T (length xs) s s'" using cc mc by (simp add: relocated_def)
    ultimately show ?thesis using mk eq by blast
  next
    assume "\<not> returns (EmplaceBack T a mk s) \<and> (mk = None \<or> \<not> nothrow T \<or> new_throws s)"
    then show ?thesis by blast
  qed
qed

lemma Emplace_relocates:
  assumes vs: "value_semantics T" and h: "holds s a xs" and full: "length xs = cap_of s a"
    and k: "k \<le> length xs" and pos: "position s a k = Some pos"
  shows "(\<exists>x r s'. mk = Some x \<and> Emplace T a pos mk s = Return r s' \<and>
            holds s' a (take k xs @ x # drop k xs) \<and>
            cap_of s' a = (if length xs = 0 then 1 else length xs * 2) \<and>
            position s' a 0 = Some (Ptr (length (blocks s)) 0) \<and> relocated T (length xs) s s')
         \<or> (\<not> returns (Emplace T a pos mk s) \<and> (mk = None \<or> \<not> nothrow T \<or> new_throws s))"
proof -
  let ?D = "is_nothrow_move_constructible T \<or> \<not> is_copy_constructible T"
  from Emplace_spec[OF vs h k pos, of mk]
  show ?thesis
  proof
    assume "\<exists>x r s'. mk = Some x \<and> Emplace T a pos mk s = Return r s' \<and>
            holds s' a (take k xs @ x # drop k xs) \<and> position s' a k = Some r \<and>
            load s' r = Some x \<and>
            cap_of s' a = (if length xs = cap_of s a
                           then (if length xs = 0 then 1 else length xs * 2) else cap_of s a) \<and>
            copy_calls s' = copy_calls s +
              (if length xs = cap_of s a \<and> \<not> ?D then length xs else 0) \<and>
            move_calls s' = move_calls s +
              (if length xs = cap_of s a
               then (if ?D then length xs else 0)
               else (if k < length xs then 1 else 0)) \<and>
            (length xs = cap_of s a \<longrightarrow> position s' a 0 = Some (Ptr (length (blocks s)) 0))"
    then obtain x r s' where mk: "mk = Some x" and eq: "Emplace T a pos mk s = Return r s'"
      and hs: "holds s' a (take k xs @ x # drop k xs)"
      and c: "cap_of s' a = (if length xs = cap_of s a
                           then (if length xs = 0 then 1 else length xs * 2) else cap_of s a)"
      and cc: "copy_calls s' = copy_calls s +
              (if length xs = cap_of s a \<and> \<not> ?D then length xs else 0)"
      and mc: "move_calls s' = move_calls s +
              (if length xs = cap_of s a
               then (if ?D then length xs else 0)
               else (if k < length xs then 1 else 0))"
      and p0: "length xs = cap_of s a \<longrightarrow> position s' a 0 = Some (Ptr (length (blocks s)) 0)"
      by blast
    from c full have c': "cap_of s' a = (if length xs = 0 then 1 else length xs * 2)" by simp
    from p0 full have p': "position s' a 0 = Some (Ptr (length (blocks s)) 0)" by simp
    from cc mc full have "relocated T (length xs) s s'" by (simp add: relocated_def)
    with mk eq hs c' p' show ?thesis by blast
  next
    assume "\<not> returns (Emplace T a pos mk s) \<and>
             (mk = None \<or> \<not> nothrow T \<or> (length xs = cap_of s a \<and> new_throws s))"
    then show ?thesis by blast
  qed
qed

text \<open>Claim C8: at the three places that relocate, \<open>Reserve\<close> beyond the capacity,
  \<open>EmplaceBack\<close> on a full array and \<open>Emplace\<close> on a full array, a call that
  returns has taken the \<open>n\<close> elements of the array into a block that did not exist
  before the call: the array then holds them there in their order (followed by the new
  element, or with the new element at its offset), with the new capacity, and this
  took \<open>n\<close> calls of the move constructor and no call of the copy constructor when
  the move constructor of \<open>T\<close> cannot throw or \<open>T\<close> cannot be copied, and \<open>n\<close>
  calls of the copy constructor and no call of the move constructor otherwise: the same
  condition at each place. The call returns when no member of \<open>T\<close> throws and
  \<open>operator new\<close> does not. For \<open>Reserve\<close> the capacity asked for is one whose byte
  count does not wrap.\<close>

theorem relocation_dispatch:
  assumes vs: "value_semantics T" and h: "holds s a xs"
  shows "(\<forall>m. cap_of s a < m \<and> fits T m \<longrightarrow>
            (\<forall>s'. Reserve T a m s = Return () s' \<longrightarrow>
               holds s' a xs \<and> cap_of s' a = m \<and>
               position s' a 0 = Some (Ptr (length (blocks s)) 0) \<and>
               relocated T (length xs) s s') \<and>
            (nothrow T \<and> \<not> new_throws s \<longrightarrow> returns (Reserve T a m s))) \<and>
         (length xs = cap_of s a \<longrightarrow>
            (\<forall>mk r s'. EmplaceBack T a mk s = Return r s' \<longrightarrow>
               (\<exists>x. mk = Some x \<and> holds s' a (xs @ [x])) \<and>
               cap_of s' a = (if length xs = 0 then 1 else length xs * 2) \<and>
               position s' a 0 = Some (Ptr (length (blocks s)) 0) \<and>
               relocated T (length xs) s s') \<and>
            (\<forall>x. nothrow T \<and> \<not> new_throws s \<longrightarrow> returns (EmplaceBack T a (Some x) s))) \<and>
         (\<forall>k pos. length xs = cap_of s a \<and> k \<le> length xs \<and> position s a k = Some pos \<longrightarrow>
            (\<forall>mk r s'. Emplace T a pos mk s = Return r s' \<longrightarrow>
               (\<exists>x. mk = Some x \<and> holds s' a (take k xs @ x # drop k xs)) \<and>
               cap_of s' a = (if length xs = 0 then 1 else length xs * 2) \<and>
               position s' a 0 = Some (Ptr (length (blocks s)) 0) \<and>
               relocated T (length xs) s s') \<and>
            (\<forall>x. nothrow T \<and> \<not> new_throws s \<longrightarrow> returns (Emplace T a pos (Some x) s)))"
proof (intro conjI allI impI)
  fix m s' assume "cap_of s a < m \<and> fits T m" and e: "Reserve T a m s = Return () s'"
  then have gt: "cap_of s a < m" by simp
  from Reserve_relocates[OF vs h gt] e
  show "holds s' a xs" "cap_of s' a = m" "position s' a 0 = Some (Ptr (length (blocks s)) 0)"
    "relocated T (length xs) s s'"
    by (auto simp: returns_iff)
next
  fix m assume "cap_of s a < m \<and> fits T m" and "nothrow T \<and> \<not> new_throws s"
  then show "returns (Reserve T a m s)"
    using Reserve_relocates[OF vs h, of m] by (auto simp: returns_iff)
next
  fix mk r s' assume full: "length xs = cap_of s a" and e: "EmplaceBack T a mk s = Return r s'"
  from EmplaceBack_relocates[OF vs h full, of mk] e
  show "\<exists>x. mk = Some x \<and> holds s' a (xs @ [x])"
    "cap_of s' a = (if length xs = 0 then 1 else length xs * 2)"
    "position s' a 0 = Some (Ptr (length (blocks s)) 0)" "relocated T (length xs) s s'"
    by (auto simp: returns_iff)
next
  fix x assume full: "length xs = cap_of s a" and "nothrow T \<and> \<not> new_throws s"
  then show "returns (EmplaceBack T a (Some x) s)"
    using EmplaceBack_relocates[OF vs h full, of "Some x"] by (auto simp: returns_iff)
next
  fix k pos mk r s'
  assume a: "length xs = cap_of s a \<and> k \<le> length xs \<and> position s a k = Some pos"
    and e: "Emplace T a pos mk s = Return r s'"
  from a have full: "length xs = cap_of s a" and k: "k \<le> length xs"
    and pos: "position s a k = Some pos" by simp_all
  from Emplace_relocates[OF vs h full k pos, of mk] e
  show "\<exists>x. mk = Some x \<and> holds s' a (take k xs @ x # drop k xs)"
    "cap_of s' a = (if length xs = 0 then 1 else length xs * 2)"
    "position s' a 0 = Some (Ptr (length (blocks s)) 0)" "relocated T (length xs) s s'"
    by (auto simp: returns_iff)
next
  fix k pos x
  assume a: "length xs = cap_of s a \<and> k \<le> length xs \<and> position s a k = Some pos"
    and "nothrow T \<and> \<not> new_throws s"
  then show "returns (Emplace T a pos (Some x) s)"
    using Emplace_relocates[OF vs h _ _ _, of k pos "Some x"] by (auto simp: returns_iff)
qed

theorem relocation_dispatch_witness:
  "value_semantics string_ops \<and> holds ab 0 [''a'', ''b''] \<and> cap_of ab 0 < 5 \<and> fits string_ops 5 \<and>
   is_nothrow_move_constructible string_ops \<and> nothrow string_ops \<and> \<not> new_throws ab \<and>
   (\<exists>s'. Reserve string_ops 0 5 ab = Return () s' \<and> holds s' 0 [''a'', ''b''] \<and> cap_of s' 0 = 5 \<and>
      position s' 0 0 = Some (Ptr 2 0) \<and>
      move_calls s' = move_calls ab + 2 \<and> copy_calls s' = copy_calls ab) \<and>
   length [''a'', ''b''] = cap_of ab 0 \<and>
   (\<exists>r s'. EmplaceBack string_ops 0 (Some ''c'') ab = Return r s' \<and>
      holds s' 0 [''a'', ''b'', ''c''] \<and> cap_of s' 0 = 4 \<and> position s' 0 0 = Some (Ptr 2 0) \<and>
      move_calls s' = move_calls ab + 2 \<and> copy_calls s' = copy_calls ab) \<and>
   value_semantics thrower_ops \<and> holds five 0 [5] \<and> length [5 :: nat] = cap_of five 0 \<and>
   \<not> is_nothrow_move_constructible thrower_ops \<and> is_copy_constructible thrower_ops \<and>
   (\<exists>r s'. EmplaceBack thrower_ops 0 (Some 7) five = Return r s' \<and>
      holds s' 0 [5, 7] \<and> cap_of s' 0 = 2 \<and> position s' 0 0 = Some (Ptr 1 0) \<and>
      copy_calls s' = copy_calls five + 1 \<and> move_calls s' = move_calls five) \<and>
   position five 0 0 = Some (Ptr 0 0) \<and>
   (\<exists>r s'. Emplace thrower_ops 0 (Ptr 0 0) (Some 7) five = Return r s' \<and>
      holds s' 0 [7, 5] \<and> cap_of s' 0 = 2 \<and> position s' 0 0 = Some (Ptr 1 0) \<and>
      copy_calls s' = copy_calls five + 1 \<and> move_calls s' = move_calls five)"
proof -
  have c1: "cap_of ab 0 < 5 \<and> fits string_ops 5" and c2: "length [5 :: nat] = cap_of five 0"
    and c3: "length [''a'', ''b''] = cap_of ab 0"
    and p: "length [5 :: nat] = cap_of five 0 \<and> (0 :: nat) \<le> length [5 :: nat] \<and>
            position five 0 0 = Some (Ptr 0 0)"
    and nt: "\<not> new_throws ab"
    and bl: "length (blocks ab) = 2" "length (blocks five) = 1"
    by (simp_all add: cap_of_def ab_def five_def position_def fits_def string_ops_def
        new_throws_def)
  have t: "is_nothrow_move_constructible string_ops" "\<not> is_nothrow_move_constructible thrower_ops"
    "is_copy_constructible thrower_ops"
    by (simp_all add: string_ops_def thrower_ops_def)
  note m1 = relocation_dispatch[OF value_semantics_string holds_ab]
  note m2 = relocation_dispatch[OF value_semantics_thrower holds_five]
  from m1 c1 nothrow_string nt have "returns (Reserve string_ops 0 5 ab)" by blast
  then obtain s1 where e1: "Reserve string_ops 0 5 ab = Return () s1"
    by (auto simp: returns_iff)
  from m1 c3 nothrow_string nt have "returns (EmplaceBack string_ops 0 (Some ''c'') ab)" by blast
  then obtain r4 s4 where e4: "EmplaceBack string_ops 0 (Some ''c'') ab = Return r4 s4"
    by (auto simp: returns_iff)
  obtain r2 s2 where e2: "EmplaceBack thrower_ops 0 (Some 7) five = Return r2 s2"
    by (simp add: alloc_defs elem_defs vector_defs five_def thrower_ops_def eval_nat_numeral)
  obtain r3 s3 where e3: "Emplace thrower_ops 0 (Ptr 0 0) (Some 7) five = Return r3 s3"
    by (simp add: alloc_defs elem_defs vector_defs five_def thrower_ops_def eval_nat_numeral)
  from m1 c1 e1 have w1: "holds s1 0 [''a'', ''b'']" "cap_of s1 0 = 5"
    "position s1 0 0 = Some (Ptr (length (blocks ab)) 0)"
    "relocated string_ops (length [''a'', ''b'']) ab s1" by blast+
  from m1 c3 e4 have w4: "\<exists>x. Some ''c'' = Some x \<and> holds s4 0 ([''a'', ''b''] @ [x])"
    "cap_of s4 0 = (if length [''a'', ''b''] = 0 then 1 else length [''a'', ''b''] * 2)"
    "position s4 0 0 = Some (Ptr (length (blocks ab)) 0)"
    "relocated string_ops (length [''a'', ''b'']) ab s4" by blast+
  from m2 c2 e2 have w2: "\<exists>x. Some 7 = Some x \<and> holds s2 0 ([5] @ [x])"
    "cap_of s2 0 = (if length [5 :: nat] = 0 then 1 else length [5 :: nat] * 2)"
    "position s2 0 0 = Some (Ptr (length (blocks five)) 0)"
    "relocated thrower_ops (length [5 :: nat]) five s2" by blast+
  from m2 p e3 have w3: "\<exists>x. Some 7 = Some x \<and> holds s3 0 (take 0 [5] @ x # drop 0 [5])"
    "cap_of s3 0 = (if length [5 :: nat] = 0 then 1 else length [5 :: nat] * 2)"
    "position s3 0 0 = Some (Ptr (length (blocks five)) 0)"
    "relocated thrower_ops (length [5 :: nat]) five s3" by blast+
  from w1 t bl have x1: "holds s1 0 [''a'', ''b''] \<and> cap_of s1 0 = 5 \<and>
      position s1 0 0 = Some (Ptr 2 0) \<and>
      move_calls s1 = move_calls ab + 2 \<and> copy_calls s1 = copy_calls ab"
    by (simp add: relocated_def)
  from w4 t bl have x4: "holds s4 0 [''a'', ''b'', ''c''] \<and> cap_of s4 0 = 4 \<and>
      position s4 0 0 = Some (Ptr 2 0) \<and>
      move_calls s4 = move_calls ab + 2 \<and> copy_calls s4 = copy_calls ab"
    by (simp add: relocated_def)
  from w2 t bl have x2: "holds s2 0 [5, 7] \<and> cap_of s2 0 = 2 \<and> position s2 0 0 = Some (Ptr 1 0) \<and>
      copy_calls s2 = copy_calls five + 1 \<and> move_calls s2 = move_calls five"
    by (simp add: relocated_def)
  from w3 t bl have x3: "holds s3 0 [7, 5] \<and> cap_of s3 0 = 2 \<and> position s3 0 0 = Some (Ptr 1 0) \<and>
      copy_calls s3 = copy_calls five + 1 \<and> move_calls s3 = move_calls five"
    by (simp add: relocated_def)
  from e1 e2 e3 e4 x1 x2 x3 x4 show ?thesis
    using value_semantics_string value_semantics_thrower holds_ab holds_five c1 c2 c3 p t
      nothrow_string nt by simp
qed

text \<open>What follows is about the vector objects only, in every state and for every
  element type: which of them a call changes, and how, whether it returns or throws.\<close>

lemma post_simps [simp]:
  "post R E (Return r s) = R r s" "post R E (Throw e s) = E s"
  "post R E AssertFail" "post R E Undefined"
  by (simp_all add: post_def)

lemma post_seq [simp]: "post R E (seq m f) = post (\<lambda>r s'. post R E (f r s')) E m"
  by (cases m) simp_all

lemma post_unwind [simp]: "post R E (unwind m c) = post R (\<lambda>s'. post (\<lambda>_. E) E (c s')) m"
  by (cases m) simp_all

lemma post_mono:
  "post R E m \<Longrightarrow> (\<And>r s. R r s \<Longrightarrow> R' r s) \<Longrightarrow> (\<And>s. E s \<Longrightarrow> E' s) \<Longrightarrow> post R' E' m"
  by (cases m) simp_all

lemma post_kept:
  "kept s m \<Longrightarrow> (\<And>r s'. vecs s' = vecs s \<Longrightarrow> R r s') \<Longrightarrow> (\<And>s'. vecs s' = vecs s \<Longrightarrow> E s') \<Longrightarrow>
   post R E m"
  unfolding kept_def by (rule post_mono)

lemma keptI: "post (\<lambda>_ s'. vecs s' = vecs s) (\<lambda>s'. vecs s' = vecs s) m \<Longrightarrow> kept s m"
  by (simp add: kept_def)

lemma kept_trans:
  "kept s m \<Longrightarrow> vecs s = vecs s0 \<Longrightarrow> kept s0 m"
  by (simp add: kept_def)

lemma leaves_post: "leaves m s' \<Longrightarrow> post (\<lambda>_. P) P m \<Longrightarrow> P s'"
  by (cases m) (simp_all add: leaves_def)

lemma Return_post: "m = Return r s' \<Longrightarrow> post R E m \<Longrightarrow> R r s'"
  by simp

lemma vecs_set_slot [simp]: "vecs (set_slot s p c) = vecs s"
  by (cases p) (simp_all split: option.splits)

lemma kept_placement_new: "kept s (placement_new p x s)"
  by (simp add: kept_def placement_new_def split: option.splits slot.splits)

lemma kept_construct_at: "kept s (construct_at p mk s)"
  using kept_placement_new[of s p] by (simp add: construct_at_def kept_def split: option.splits)

lemma kept_destroy_at: "kept s (destroy_at p s)"
  by (simp add: kept_def destroy_at_def split: option.splits slot.splits)

lemma kept_seq: "kept s m \<Longrightarrow> (\<And>r s'. vecs s' = vecs s \<Longrightarrow> kept s' (f r s')) \<Longrightarrow> kept s (seq m f)"
  unfolding kept_def by (cases m) simp_all

lemma kept_destroy_n: "kept s (destroy_n p n s)"
proof (induction n arbitrary: p s)
  case 0
  show ?case by (simp add: kept_def)
next
  case (Suc n)
  show ?case unfolding destroy_n.simps
    by (rule kept_seq[OF kept_destroy_at]) (rule Suc)
qed

lemma kept_operator_new: "kept s (operator_new n s)"
  by (simp add: kept_def operator_new_def split: list.splits bool.splits)

lemma kept_operator_delete: "kept s (operator_delete p s)"
  by (simp add: kept_def operator_delete_def split: ptr.splits option.splits)

lemma kept_Allocate: "kept s (Allocate n s)"
  using kept_operator_new[of s n] by (simp add: Allocate_def kept_def)

lemma kept_RawMemory_dtor: "kept s (RawMemory_dtor m s)"
  using kept_operator_delete by (simp add: RawMemory_dtor_def Deallocate_def)

lemma kept_RawMemory_plus: "kept s (RawMemory_plus m i s)"
  by (simp add: kept_def RawMemory_plus_def split: option.splits)

lemma kept_RawMemory_index: "kept s (RawMemory_index m i s)"
  by (simp add: kept_def RawMemory_index_def split: option.splits)

lemma kept_Throw_after: "kept s m \<Longrightarrow> kept s (seq m (\<lambda>_ s'. Throw e s'))"
  by (rule kept_seq) (simp_all add: kept_def)

lemma kept_uninitialized_copy_loop: "kept s (uninitialized_copy_loop T first d cur i n s)"
proof (induction n arbitrary: first cur i s)
  case 0
  show ?case by (simp add: kept_def)
next
  case (Suc n)
  show ?case
  proof (cases "load s first")
    case None
    then show ?thesis by (simp add: kept_def)
  next
    case (Some x)
    show ?thesis
    proof (cases "copy_construct T x")
      case None
      have "kept (s\<lparr>copy_calls := Suc (copy_calls s)\<rparr>)
        (seq (destroy_n d i (s\<lparr>copy_calls := Suc (copy_calls s)\<rparr>)) (\<lambda>_ s'. Throw elem_exn s'))"
        by (rule kept_Throw_after[OF kept_destroy_n])
      then show ?thesis using Some None by (simp add: kept_def)
    next
      case y: (Some y)
      have "kept (s\<lparr>copy_calls := Suc (copy_calls s)\<rparr>)
        (seq (placement_new cur y (s\<lparr>copy_calls := Suc (copy_calls s)\<rparr>))
          (\<lambda>_. uninitialized_copy_loop T (ptr_inc first) d (ptr_inc cur) (Suc i) n))"
        by (rule kept_seq[OF kept_placement_new]) (rule Suc)
      then show ?thesis using Some y by (simp add: kept_def)
    qed
  qed
qed

lemma kept_uninitialized_move_loop: "kept s (uninitialized_move_loop T first d cur i n s)"
proof (induction n arbitrary: first cur i s)
  case 0
  show ?case by (simp add: kept_def)
next
  case (Suc n)
  show ?case
  proof (cases "load s first")
    case None
    then show ?thesis by (simp add: kept_def)
  next
    case (Some x)
    show ?thesis
    proof (cases "move_construct T x")
      case None
      have "kept (s\<lparr>move_calls := Suc (move_calls s)\<rparr>)
        (seq (destroy_n d i (s\<lparr>move_calls := Suc (move_calls s)\<rparr>)) (\<lambda>_ s'. Throw elem_exn s'))"
        by (rule kept_Throw_after[OF kept_destroy_n])
      then show ?thesis using Some None by (simp add: kept_def)
    next
      case yx: (Some yx)
      obtain y x' where p: "yx = (y, x')" by (cases yx)
      let ?s0 = "(set_slot s first (Live x'))\<lparr>move_calls := Suc (move_calls s)\<rparr>"
      have "kept ?s0
        (seq (placement_new cur y ?s0)
          (\<lambda>_. uninitialized_move_loop T (ptr_inc first) d (ptr_inc cur) (Suc i) n))"
        by (rule kept_seq[OF kept_placement_new]) (rule Suc)
      then show ?thesis using Some yx p by (simp add: kept_def)
    qed
  qed
qed

lemma kept_uninitialized_value_construct_loop:
  "kept s (uninitialized_value_construct_loop T first cur i n s)"
proof (induction n arbitrary: cur i s)
  case 0
  show ?case by (simp add: kept_def)
next
  case (Suc n)
  show ?case
  proof (cases "default_construct T")
    case None
    then show ?thesis using kept_Throw_after[OF kept_destroy_n, of s first i elem_exn] by simp
  next
    case (Some y)
    have "kept s (seq (placement_new cur y s)
      (\<lambda>_. uninitialized_value_construct_loop T first (ptr_inc cur) (Suc i) n))"
      by (rule kept_seq[OF kept_placement_new]) (rule Suc)
    then show ?thesis using Some by simp
  qed
qed

lemma kept_uninitialized_copy_n: "kept s (uninitialized_copy_n T first n d s)"
  by (simp add: uninitialized_copy_n_def kept_uninitialized_copy_loop)

lemma kept_uninitialized_move_n: "kept s (uninitialized_move_n T first n d s)"
  by (simp add: uninitialized_move_n_def kept_uninitialized_move_loop)

lemma kept_uninitialized_value_construct_n: "kept s (uninitialized_value_construct_n T first n s)"
  by (simp add: uninitialized_value_construct_n_def kept_uninitialized_value_construct_loop)

lemma kept_move_assign_at: "kept s (move_assign_at T d p s)"
  by (simp add: kept_def move_assign_at_def split: option.splits prod.splits)

lemma kept_copy_assign_at: "kept s (copy_assign_at T d p s)"
  by (simp add: kept_def copy_assign_at_def split: option.splits)

lemma kept_move_loop: "kept s (move_loop T first d n s)"
proof (induction n arbitrary: first d s)
  case 0
  show ?case by (simp add: kept_def)
next
  case (Suc n)
  show ?case unfolding move_loop.simps
    by (rule kept_seq[OF kept_move_assign_at]) (rule Suc)
qed

lemma kept_std_move: "kept s (std_move T first lastp d s)"
proof (cases "ptr_diff lastp first")
  case None
  then show ?thesis by (simp add: std_move_def kept_def)
next
  case (Some n)
  then show ?thesis by (simp add: std_move_def kept_move_loop)
qed

lemma kept_move_backward_loop: "kept s (move_backward_loop T lastp d n s)"
proof (induction n arbitrary: lastp d s)
  case 0
  show ?case by (simp add: kept_def)
next
  case (Suc n)
  show ?case
  proof (cases "ptr_sub lastp 1")
    case None
    then show ?thesis by (simp add: kept_def)
  next
    case l: (Some l)
    show ?thesis
    proof (cases "ptr_sub d 1")
      case None
      then show ?thesis using l by (simp add: kept_def)
    next
      case (Some d')
      have "kept s (seq (move_assign_at T d' l s) (\<lambda>_. move_backward_loop T l d' n))"
        by (rule kept_seq[OF kept_move_assign_at]) (rule Suc)
      then show ?thesis using l Some by simp
    qed
  qed
qed

lemma kept_move_backward: "kept s (move_backward T first lastp d s)"
proof (cases "ptr_diff lastp first")
  case None
  then show ?thesis by (simp add: move_backward_def kept_def)
next
  case (Some n)
  then show ?thesis by (simp add: move_backward_def kept_move_backward_loop)
qed

lemma kept_copy_n: "kept s (copy_n T first n d s)"
proof (induction n arbitrary: first d s)
  case 0
  show ?case by (simp add: kept_def)
next
  case (Suc n)
  show ?case unfolding copy_n.simps
    by (rule kept_seq[OF kept_copy_assign_at]) (rule Suc)
qed

text \<open>Destruction and deallocation do not throw.\<close>

lemma post_nothrow:
  "post (\<lambda>_ s'. vecs s' = vecs s) (\<lambda>_. False) m \<Longrightarrow> (\<And>r s'. vecs s' = vecs s \<Longrightarrow> R r s') \<Longrightarrow>
   post R E m"
  by (cases m) simp_all

lemma nothrow_destroy_at: "post (\<lambda>_ s'. vecs s' = vecs s) (\<lambda>_. False) (destroy_at p s)"
  by (simp add: destroy_at_def split: option.splits slot.splits)

lemma nothrow_destroy_n: "post (\<lambda>_ s'. vecs s' = vecs s) (\<lambda>_. False) (destroy_n p n s)"
proof (induction n arbitrary: p s)
  case 0
  show ?case by simp
next
  case (Suc n)
  show ?case unfolding destroy_n.simps post_seq
  proof (rule post_nothrow[OF nothrow_destroy_at])
    fix r :: unit and s' :: "'a state"
    assume "vecs s' = vecs s"
    then show "post (\<lambda>_ s'. vecs s' = vecs s) (\<lambda>_. False) (destroy_n (ptr_inc p) n s')"
      using Suc[where p = "ptr_inc p" and s = s'] by simp
  qed
qed

lemma nothrow_operator_delete: "post (\<lambda>_ s'. vecs s' = vecs s) (\<lambda>_. False) (operator_delete p s)"
  by (simp add: operator_delete_def split: ptr.splits option.splits)

lemma nothrow_RawMemory_dtor: "post (\<lambda>_ s'. vecs s' = vecs s) (\<lambda>_. False) (RawMemory_dtor m s)"
  using nothrow_operator_delete by (simp add: RawMemory_dtor_def Deallocate_def)

lemma nothrow_RawMemory_plus: "post (\<lambda>_ s'. vecs s' = vecs s) (\<lambda>_. False) (RawMemory_plus m i s)"
  by (simp add: RawMemory_plus_def split: option.splits)

lemma nothrow_RawMemory_index: "post (\<lambda>_ s'. vecs s' = vecs s) (\<lambda>_. False) (RawMemory_index m i s)"
  by (simp add: RawMemory_index_def split: option.splits)

lemma vec_is_Some: "vecs s a = Some v \<Longrightarrow> vec_is s a n c = (size' v = n \<and> capacity' (data' v) = c)"
  by (simp add: vec_is_def)

lemma vec_isE: "vec_is s a n c \<Longrightarrow> \<exists>v. vecs s a = Some v \<and> size' v = n \<and> capacity' (data' v) = c"
  by (simp add: vec_is_def split: option.splits)

lemmas kept_rules =
  post_kept[OF kept_placement_new] post_kept[OF kept_construct_at]
  post_nothrow[OF nothrow_destroy_at] post_nothrow[OF nothrow_destroy_n]
  post_kept[OF kept_operator_new] post_nothrow[OF nothrow_operator_delete]
  post_kept[OF kept_Allocate] post_nothrow[OF nothrow_RawMemory_dtor]
  post_nothrow[OF nothrow_RawMemory_plus] post_nothrow[OF nothrow_RawMemory_index]
  post_kept[OF kept_uninitialized_copy_n]
  post_kept[OF kept_uninitialized_move_n] post_kept[OF kept_uninitialized_value_construct_n]
  post_kept[OF kept_move_assign_at] post_kept[OF kept_copy_assign_at] post_kept[OF kept_std_move]
  post_kept[OF kept_move_backward] post_kept[OF kept_copy_n]

lemma Reserve_post:
  assumes "vecs s a = Some v"
  shows "post (\<lambda>_ s'. vec_is s' a (size' v) (max m (capacity' (data' v))))
              (\<lambda>s'. vecs s' = vecs s) (Reserve T a m s)"
  using assms
  by (auto simp: Reserve_def this_obj_def RawMemory_ctor_def RawMemory_Swap_def set_vec_def
        max_def vec_is_Some intro!: kept_rules)

lemma EmplaceBack_post:
  assumes "vecs s a = Some v"
  shows "post (\<lambda>_ s'. vec_is s' a (Suc (size' v))
                  (if size' v = capacity' (data' v) then (if size' v = 0 then 1 else size' v * 2)
                   else capacity' (data' v)))
              (\<lambda>s'. vecs s' = vecs s) (EmplaceBack T a mk s)"
  using assms
  by (auto simp: EmplaceBack_def this_obj_def RawMemory_ctor_def RawMemory_Swap_def set_vec_def
        vec_is_Some intro!: kept_rules)

lemma PushBack_post:
  assumes "vecs s a = Some v"
  shows "post (\<lambda>_ s'. vec_is s' a (Suc (size' v))
                  (if size' v = capacity' (data' v) then (if size' v = 0 then 1 else size' v * 2)
                   else capacity' (data' v)))
              (\<lambda>s'. vecs s' = vecs s) (PushBack T a x s)"
  using EmplaceBack_post[OF assms, of T "copy_construct T x"] by (simp add: PushBack_def)

lemma PopBack_post:
  assumes "vecs s a = Some v"
  shows "post (\<lambda>_ s'. vec_is s' a (size' v - 1) (capacity' (data' v))) (\<lambda>_. False) (PopBack a s)"
  using assms
  by (auto simp: PopBack_def this_obj_def set_vec_def vec_is_Some split: option.splits
        intro!: kept_rules)

lemma Resize_post:
  assumes "vecs s a = Some v"
  shows "post (\<lambda>_ s'. vec_is s' a m (if m \<le> size' v then capacity' (data' v)
                                     else max m (capacity' (data' v))))
              (\<lambda>s'. vec_is s' a (size' v) (capacity' (data' v)) \<or>
                    vec_is s' a (size' v) (max m (capacity' (data' v)))) (Resize T a m s)"
proof (cases "m \<le> size' v")
  case True
  then show ?thesis using assms
    by (auto simp: Resize_def this_obj_def set_vec_def vec_is_Some intro!: kept_rules)
next
  case False
  have R: "post (\<lambda>_ s'. vec_is s' a (size' v) (max m (capacity' (data' v))))
              (\<lambda>s'. vecs s' = vecs s) (Reserve T a m s)"
    by (rule Reserve_post[OF assms])
  show ?thesis using assms False
    apply (simp add: Resize_def this_obj_def)
    apply (rule post_mono[OF R])
     apply (auto simp: this_obj_def set_vec_def vec_is_Some dest!: vec_isE intro!: kept_rules)
    done
qed

lemma kept_Vector_begin: "post (\<lambda>_ s'. vecs s' = vecs s) (\<lambda>_. False) (Vector_begin a s)"
  by (auto simp: Vector_begin_def this_obj_def split: option.splits
        intro!: post_nothrow[OF nothrow_RawMemory_plus])

lemma kept_Vector_end: "post (\<lambda>_ s'. vecs s' = vecs s) (\<lambda>_. False) (Vector_end a s)"
  by (auto simp: Vector_end_def this_obj_def split: option.splits
        intro!: post_nothrow[OF nothrow_RawMemory_plus])

lemmas kept_rules2 = kept_rules post_nothrow[OF kept_Vector_begin] post_nothrow[OF kept_Vector_end]

lemma kept_InsertWithoutReallocating:
  "kept s (InsertWithoutReallocating T a pos k mk s)"
  unfolding kept_def
  by (auto simp: InsertWithoutReallocating_def this_obj_def
        split: option.splits prod.splits intro!: kept_rules2)

lemma InsertAndReallocate_post:
  assumes "vecs s a = Some v"
  shows "post (\<lambda>_ s'. vec_is s' a (size' v) (if size' v = 0 then 1 else size' v * 2))
              (\<lambda>s'. vecs s' = vecs s) (InsertAndReallocate T a k mk s)"
  using assms
  by (auto simp: InsertAndReallocate_def this_obj_def RawMemory_ctor_def RawMemory_Swap_def
        set_vec_def vec_is_Some split: option.splits intro!: kept_rules2)

lemma post_InsertAndReallocate:
  assumes "vecs s a = Some v"
    and "\<And>r s'. vec_is s' a (size' v) (if size' v = 0 then 1 else size' v * 2) \<Longrightarrow> R r s'"
    and "\<And>s'. vecs s' = vecs s \<Longrightarrow> E s'"
  shows "post R E (InsertAndReallocate T a k mk s)"
  by (rule post_mono[OF InsertAndReallocate_post[OF assms(1)]]) (use assms in auto)

lemma Emplace_post:
  assumes v: "vecs s a = Some v"
  shows "post (\<lambda>_ s'. vec_is s' a (Suc (size' v))
                  (if size' v = capacity' (data' v) then (if size' v = 0 then 1 else size' v * 2)
                   else capacity' (data' v)))
              (\<lambda>s'. vecs s' = vecs s) (Emplace T a pos mk s)"
  using v
  by (auto simp: Emplace_def this_obj_def set_vec_def vec_is_Some
        split: option.splits dest!: vec_isE
        intro!: kept_rules2 post_InsertAndReallocate post_kept[OF kept_InsertWithoutReallocating])

lemma Insert_post:
  assumes v: "vecs s a = Some v"
  shows "post (\<lambda>_ s'. vec_is s' a (Suc (size' v))
                  (if size' v = capacity' (data' v) then (if size' v = 0 then 1 else size' v * 2)
                   else capacity' (data' v)))
              (\<lambda>s'. vecs s' = vecs s) (Insert T a pos x s)"
  unfolding Insert_def by (rule Emplace_post[OF v])

lemma Erase_post:
  assumes v: "vecs s a = Some v"
  shows "post (\<lambda>_ s'. vec_is s' a (size' v - 1) (capacity' (data' v)))
              (\<lambda>s'. vecs s' = vecs s) (Erase T a pos s)"
  using v
  by (auto simp: Erase_def this_obj_def set_vec_def vec_is_Some
        split: option.splits intro!: kept_rules2)

lemma kept_Vector_dtor: "post (\<lambda>_ s'. vecs s' = vecs s) (\<lambda>_. False) (Vector_dtor w s)"
  by (auto simp: Vector_dtor_def intro!: kept_rules2)

lemma CopyAssign_post:
  assumes v: "vecs s a = Some v" and r: "vecs s b = Some w" and ne: "a \<noteq> b"
  shows "post (\<lambda>_ s'. vec_is s' a (size' w) (max (size' w) (capacity' (data' v))))
              (\<lambda>s'. vecs s' = vecs s) (CopyAssign T a b s)"
  using v r ne
  by (auto simp: CopyAssign_def Vector_copy_def this_obj_def set_vec_def vec_is_Some
        RawMemory_ctor_def RawMemory_Swap_def max_def
        split: option.splits intro!: kept_rules2 post_nothrow[OF kept_Vector_dtor])

lemma Capacity_iff:
  "(Capacity a s = Return c s') = (\<exists>v. vecs s a = Some v \<and> capacity' (data' v) = c \<and> s' = s)"
  by (auto simp: Capacity_def this_obj_def split: option.splits)

lemma Size_iff:
  "(Size a s = Return n s') = (\<exists>v. vecs s a = Some v \<and> size' v = n \<and> s' = s)"
  by (auto simp: Size_def this_obj_def split: option.splits)

lemma vec_is_Capacity: "vec_is s a n c \<Longrightarrow> Capacity a s = Return c s"
  by (auto simp: Capacity_iff dest: vec_isE)

lemma vec_is_Size: "vec_is s a n c \<Longrightarrow> Size a s = Return n s"
  by (auto simp: Size_iff dest: vec_isE)

lemma vec_isI: "vecs s a = Some v \<Longrightarrow> vec_is s a (size' v) (capacity' (data' v))"
  by (simp add: vec_is_def)

lemma leaves_seq_Return [simp]: "leaves (seq m (\<lambda>_. Return ())) s' = leaves m s'"
  by (cases m) (simp_all add: leaves_def)

lemma leaves_postD: "leaves m s' \<Longrightarrow> post R E m \<Longrightarrow> (\<exists>r. R r s') \<or> E s'"
  by (cases m) (auto simp: leaves_def)

lemma post_seq_Return [simp]: "post R E (seq m (\<lambda>_. Return ())) = post (\<lambda>_. R ()) E m"
  by (cases m) simp_all

text \<open>One call never lowers the capacity.\<close>

lemma run_post:
  assumes v: "vecs s a = Some v"
  shows "post (\<lambda>_ s'. \<exists>n' c'. vec_is s' a n' c' \<and> capacity' (data' v) \<le> c')
              (\<lambda>s'. \<exists>n' c'. vec_is s' a n' c' \<and> capacity' (data' v) \<le> c') (run T a c s)"
proof -
  let ?c = "capacity' (data' v)"
  let ?P = "\<lambda>s'. \<exists>n' c'. vec_is s' a n' c' \<and> ?c \<le> c'"
  have same: "?P s'" if "vecs s' = vecs s" for s' :: "'a state"
    using that v by (auto simp: vec_is_Some)
  have up: "?P s'" if "vec_is s' a n c'" "?c \<le> c'" for s' :: "'a state" and n c'
    using that by blast
  show ?thesis
  proof (cases c)
    case (Reserve_call m)
    show ?thesis unfolding Reserve_call run.simps
      by (rule post_mono[OF Reserve_post[OF v]]) (auto intro: up same)
  next
    case (Resize_call m)
    show ?thesis unfolding Resize_call run.simps
      by (rule post_mono[OF Resize_post[OF v]]) (auto intro: up split: if_splits)
  next
    case (EmplaceBack_call mk)
    show ?thesis unfolding EmplaceBack_call run.simps post_seq_Return
      by (rule post_mono[OF EmplaceBack_post[OF v]]) (auto intro: up same split: if_splits)
  next
    case (PushBack_call x)
    show ?thesis unfolding PushBack_call run.simps
      by (rule post_mono[OF PushBack_post[OF v]]) (auto intro: up same split: if_splits)
  next
    case PopBack_call
    show ?thesis unfolding PopBack_call run.simps
      by (rule post_mono[OF PopBack_post[OF v]]) (auto intro: up)
  next
    case (Emplace_call pos mk)
    show ?thesis unfolding Emplace_call run.simps post_seq_Return
      by (rule post_mono[OF Emplace_post[OF v]]) (auto intro: up same split: if_splits)
  next
    case (Insert_call pos x)
    show ?thesis unfolding Insert_call run.simps post_seq_Return
      by (rule post_mono[OF Insert_post[OF v]]) (auto intro: up same split: if_splits)
  next
    case (Erase_call pos)
    show ?thesis unfolding Erase_call run.simps post_seq_Return
      by (rule post_mono[OF Erase_post[OF v]]) (auto intro: up same)
  next
    case (CopyAssign_call b)
    show ?thesis
    proof (cases "a = b")
      case True
      then show ?thesis unfolding CopyAssign_call run.simps
        using same[of s] by (simp add: CopyAssign_def)
    next
      case False
      show ?thesis
      proof (cases "vecs s b")
        case None
        then show ?thesis unfolding CopyAssign_call run.simps
          using False v by (simp add: CopyAssign_def this_obj_def)
      next
        case (Some w)
        show ?thesis unfolding CopyAssign_call run.simps
          by (rule post_mono[OF CopyAssign_post[OF v Some False]]) (auto intro: up same)
      qed
    qed
  qed
qed

lemma run_all_post:
  "vec_is s a n c \<Longrightarrow>
   post (\<lambda>_ s'. \<exists>n' c'. vec_is s' a n' c' \<and> c \<le> c')
        (\<lambda>s'. \<exists>n' c'. vec_is s' a n' c' \<and> c \<le> c') (run_all T a cs s)"
proof (induction cs arbitrary: s n c)
  case Nil
  then show ?case by auto
next
  case (Cons d cs)
  from vec_isE[OF Cons.prems] obtain v where v: "vecs s a = Some v" "capacity' (data' v) = c"
    by blast
  show ?case unfolding run_all.simps post_seq
  proof (rule post_mono[OF run_post[OF v(1), of T d]])
    fix r :: unit and s1 :: "'a state"
    assume "\<exists>n' c'. vec_is s1 a n' c' \<and> capacity' (data' v) \<le> c'"
    then obtain n1 c1 where 1: "vec_is s1 a n1 c1" "c \<le> c1" using v(2) by blast
    show "post (\<lambda>_ s'. \<exists>n' c'. vec_is s' a n' c' \<and> c \<le> c')
        (\<lambda>s'. \<exists>n' c'. vec_is s' a n' c' \<and> c \<le> c') (run_all T a cs s1)"
      by (rule post_mono[OF Cons.IH[OF 1(1)]]) (use 1(2) in \<open>auto intro: le_trans\<close>)
  next
    fix s1 :: "'a state"
    assume "\<exists>n' c'. vec_is s1 a n' c' \<and> capacity' (data' v) \<le> c'"
    then show "\<exists>n' c'. vec_is s1 a n' c' \<and> c \<le> c'" using v(2) by simp
  qed
qed

text \<open>The capacities that doubling from 1 reaches.\<close>

lemma cap_seq_power:
  "0 < n \<Longrightarrow> \<exists>k. cap_seq n = 2 ^ k \<and> n \<le> 2 ^ k \<and> 2 ^ k < 2 * n"
proof (induction n)
  case 0
  then show ?case by simp
next
  case (Suc n)
  show ?case
  proof (cases "n = 0")
    case True
    then have "cap_seq (Suc n) = 2 ^ 0 \<and> Suc n \<le> 2 ^ 0 \<and> (2::nat) ^ 0 < 2 * Suc n" by simp
    then show ?thesis by blast
  next
    case False
    with Suc.IH obtain k where k: "cap_seq n = 2 ^ k" "n \<le> 2 ^ k" "2 ^ k < 2 * n" by auto
    show ?thesis
    proof (cases "n = cap_seq n")
      case True
      then have "cap_seq (Suc n) = 2 ^ Suc k \<and> Suc n \<le> 2 ^ Suc k \<and> (2::nat) ^ Suc k < 2 * Suc n"
        using False k by simp
      then show ?thesis by blast
    next
      case ne: False
      then have "cap_seq (Suc n) = 2 ^ k \<and> Suc n \<le> 2 ^ k \<and> (2::nat) ^ k < 2 * Suc n"
        using k by simp
      then show ?thesis by blast
    qed
  qed
qed

lemma power_two_least:
  assumes "(2::nat) ^ k < 2 * n" and "n \<le> 2 ^ j"
  shows "k \<le> j"
proof (rule ccontr)
  assume "\<not> k \<le> j"
  then have "Suc j \<le> k" by simp
  then have "(2::nat) ^ Suc j \<le> 2 ^ k" by (rule power_increasing) simp
  with assms show False by simp
qed

lemma pushes_post:
  "vec_is s a n (cap_seq n) \<Longrightarrow>
   post (\<lambda>_ s'. vec_is s' a (n + length xs) (cap_seq (n + length xs))) (\<lambda>_. True)
     (apply_ops T a (map Push xs) s)"
proof (induction xs arbitrary: s n)
  case Nil
  then show ?case by simp
next
  case (Cons x xs)
  from vec_isE[OF Cons.prems] obtain v where v: "vecs s a = Some v" "size' v = n"
    "capacity' (data' v) = cap_seq n" by blast
  show ?case unfolding list.map apply_ops.simps post_seq
  proof (rule post_mono[OF PushBack_post[OF v(1), of T x]])
    fix r :: unit and s1 :: "'a state"
    assume "vec_is s1 a (Suc (size' v))
        (if size' v = capacity' (data' v) then if size' v = 0 then 1 else size' v * 2
         else capacity' (data' v))"
    then have "vec_is s1 a (Suc n) (cap_seq (Suc n))" using v(2,3)
      by (cases "n = cap_seq n"; cases "n = 0"; simp)
    from Cons.IH[OF this]
    show "post (\<lambda>_ s'. vec_is s' a (n + length (x # xs)) (cap_seq (n + length (x # xs))))
        (\<lambda>_. True) (apply_ops T a (map Push xs) s1)" by simp
  qed simp
qed

lemma never_underflows_pushes: "never_underflows n (map Push xs)"
  by (induction xs arbitrary: n) simp_all

lemma holds_default: "vecs s a = Some Vector_default \<Longrightarrow> holds s a []"
  by (simp add: holds_def owns_def Vector_default_def RawMemory_default_def)

lemma Resize_shrink_post:
  assumes "vecs s a = Some v" and "m \<le> size' v"
  shows "post (\<lambda>_ s'. vec_is s' a m (capacity' (data' v))) (\<lambda>_. False) (Resize T a m s)"
  using assms
  by (auto simp: Resize_def this_obj_def set_vec_def vec_is_Some intro!: kept_rules)

lemma growth_max: "(if c = 0 then 1 else c * 2) = max 1 (c * 2)" for c :: nat
  by simp

lemma grown:
  "vec_is s' a (Suc n) (if n = k then (if n = 0 then 1 else n * 2) else k) \<Longrightarrow> n = c \<Longrightarrow> k = c \<Longrightarrow>
   vec_is s' a (Suc c) (max 1 (c * 2))"
  by (cases "c = 0") (simp_all add: max_def)

lemma holds_block:
  assumes h: "holds s a xs" and c: "0 < cap_of s a"
  shows "\<exists>b sl. position s a 0 = Some (Ptr b 0) \<and> block_at s b = Some sl \<and>
           length sl = cap_of s a"
proof -
  from holdsD[OF h] obtain v where v: "vecs s a = Some v" and o: "owns s v xs" by blast
  from c v have pos: "0 < capacity' (data' v)" by (simp add: cap_of_def)
  from owns_room_Ptr[OF o pos] obtain b where buf: "buffer' (data' v) = Ptr b 0" ..
  from owns_PtrD[OF o buf] have blk: "block_at s b = Some (block_of xs (capacity' (data' v)))"
    by simp
  from o have "length xs \<le> capacity' (data' v)" by (simp add: owns_def)
  then have "length (block_of xs (capacity' (data' v))) = capacity' (data' v)"
    by (simp add: block_of_def)
  with v buf blk show ?thesis by (simp add: position_def cap_of_def)
qed

lemma two_reached:
  "seq (Reserve string_ops 0 4 start) (\<lambda>_ s.
     seq (PushBack string_ops 0 ''a'' s) (\<lambda>_ s.
       seq (PushBack string_ops 0 ''b'' s) (\<lambda>_ s.
         seq (PushBack string_ops 0 ''c'' s) (\<lambda>_ s.
           seq (Vector_default_at 1 s) (\<lambda>_ s.
             seq (Reserve string_ops 1 2 s) (\<lambda>_. PushBack string_ops 1 ''x'')))))) = Return () two"
  by (simp add: alloc_defs elem_defs vector_defs start_def two_def string_ops_def fun_eq_iff
      Vector_default_at_def eval_nat_numeral)

text \<open>Claim C4 as stated fails: the array at address 0 of \<open>two\<close> has capacity 4
  and the one at address 1 has capacity 2; after the move assignment of the second to
  the first, and as well after \<open>Swap\<close>, \<open>Capacity()\<close> of the first returns 2. And
  after no \<open>push_back\<close> at all the capacity of a default-constructed array is 0, which
  doubling from 1 does not reach.\<close>

theorem move_assignment_lowers_capacity:
  "Capacity 0 two = Return 4 two \<and>
   (\<exists>s'. MoveAssign 0 1 two = Return () s' \<and> Capacity 0 s' = Return 2 s') \<and>
   (\<exists>s'. Swap 0 1 two = Return () s' \<and> Capacity 0 s' = Return 2 s') \<and>
   apply_ops string_ops 0 (map Push []) start = Return () start \<and>
   Capacity 0 (start :: string state) = Return 0 start"
  by (simp add: two_def start_def Capacity_def MoveAssign_def Swap_def this_obj_def set_vec_def
      RawMemory_move_assign_def RawMemory_Swap_def Vector_default_def RawMemory_default_def)

text \<open>Claim C4, amended: the capacity of an array never goes down under \<open>reserve\<close>,
  \<open>resize\<close>, \<open>push_back\<close>, \<open>emplace_back\<close>, \<open>pop_back\<close>, \<open>insert\<close>,
  \<open>emplace\<close>, \<open>erase\<close> and copy assignment, nor under a sequence of them, whether
  the calls return or one of them throws (the sizes and capacities asked for are such
  that their byte count does not wrap); move assignment and \<open>Swap\<close> are not among
  them, they give the array the capacity of the other one. \<open>pop_back\<close>, \<open>erase\<close>
  and a \<open>resize\<close> that does not grow leave \<open>Capacity()\<close> as it is, and \<open>reserve\<close>
  with an argument up to the capacity leaves the whole state as it is. On a full array
  (\<open>Size() = Capacity() = c\<close>) a returning \<open>emplace_back\<close>, \<open>push_back\<close>,
  \<open>emplace\<close> or \<open>insert\<close> makes the capacity \<open>max 1 (c * 2)\<close>, and for an array
  that holds \<open>xs\<close> the block at \<open>begin()\<close> then has that many slots; the call returns
  when nothing throws. After \<open>N \<ge> 1\<close> calls of \<open>push_back\<close> on a default-constructed
  array \<open>Capacity()\<close> returns the least power of two that is at least \<open>N\<close>, and
  the calls return when nothing throws.\<close>

theorem capacity_policy:
  assumes c: "Capacity a s = Return c s"
  shows "(\<forall>cs s'. list_all (request_fits T) cs \<and> leaves (run_all T a cs s) s' \<longrightarrow>
            (\<exists>c'. Capacity a s' = Return c' s' \<and> c \<le> c')) \<and>
         (\<forall>s'. leaves (PopBack a s) s' \<longrightarrow> Capacity a s' = Return c s') \<and>
         (\<forall>pos s'. leaves (Erase T a pos s) s' \<longrightarrow> Capacity a s' = Return c s') \<and>
         (\<forall>m n s'. Size a s = Return n s \<and> m \<le> n \<and> leaves (Resize T a m s) s' \<longrightarrow>
            Capacity a s' = Return c s') \<and>
         (\<forall>m. m \<le> c \<longrightarrow> Reserve T a m s = Return () s) \<and>
         (Size a s = Return c s \<longrightarrow>
            (\<forall>mk r s'. EmplaceBack T a mk s = Return r s' \<longrightarrow>
               Capacity a s' = Return (max 1 (c * 2)) s') \<and>
            (\<forall>x s'. PushBack T a x s = Return () s' \<longrightarrow>
               Capacity a s' = Return (max 1 (c * 2)) s') \<and>
            (\<forall>pos mk r s'. Emplace T a pos mk s = Return r s' \<longrightarrow>
               Capacity a s' = Return (max 1 (c * 2)) s') \<and>
            (\<forall>pos x r s'. Insert T a pos x s = Return r s' \<longrightarrow>
               Capacity a s' = Return (max 1 (c * 2)) s')) \<and>
         (\<forall>xs. value_semantics T \<and> holds s a xs \<and> length xs = c \<longrightarrow>
            (\<forall>mk r s'. EmplaceBack T a mk s = Return r s' \<longrightarrow>
               (\<exists>sl. position s' a 0 = Some (Ptr (length (blocks s)) 0) \<and>
                     block_at s' (length (blocks s)) = Some sl \<and> length sl = max 1 (c * 2))) \<and>
            (\<forall>x. nothrow T \<and> \<not> new_throws s \<longrightarrow> returns (EmplaceBack T a (Some x) s))) \<and>
         (vecs s a = Some Vector_default \<longrightarrow>
            (\<forall>xs s'. xs \<noteq> [] \<and> apply_ops T a (map Push xs) s = Return () s' \<longrightarrow>
               (\<exists>k. Capacity a s' = Return (2 ^ k) s' \<and> length xs \<le> 2 ^ k \<and>
                    (\<forall>j. length xs \<le> 2 ^ j \<longrightarrow> k \<le> j))) \<and>
            (\<forall>xs. value_semantics T \<and> nothrow T \<and> new_fails s = [] \<longrightarrow>
               returns (apply_ops T a (map Push xs) s)))"
proof -
  from c obtain v where v: "vecs s a = Some v" and cv: "capacity' (data' v) = c"
    by (auto simp: Capacity_iff)
  have vi: "vec_is s a (size' v) c" using vec_isI[OF v] cv by simp
  have same: "Capacity a s' = Return c s'" if "vecs s' = vecs s" for s' :: "'a state"
    using that v cv by (simp add: Capacity_iff)
  have 1: "\<exists>c'. Capacity a s' = Return c' s' \<and> c \<le> c'"
    if "list_all (request_fits T) cs \<and> leaves (run_all T a cs s) s'" for cs s'
  proof -
    from that have l: "leaves (run_all T a cs s) s'" by simp
    from leaves_post[OF l run_all_post[OF vi]]
    obtain n' c' where "vec_is s' a n' c'" "c \<le> c'" by blast
    then show ?thesis using vec_is_Capacity by blast
  qed
  have 2: "Capacity a s' = Return c s'" if "leaves (PopBack a s) s'" for s'
    using leaves_postD[OF that PopBack_post[OF v]] cv by (auto dest: vec_is_Capacity)
  have 3: "Capacity a s' = Return c s'" if "leaves (Erase T a pos s) s'" for pos s'
    using leaves_postD[OF that Erase_post[OF v]] cv same by (auto dest: vec_is_Capacity)
  have 4: "Capacity a s' = Return c s'"
    if "Size a s = Return n s \<and> m \<le> n \<and> leaves (Resize T a m s) s'" for m n s'
  proof -
    from that v have m: "m \<le> size' v" and l: "leaves (Resize T a m s) s'"
      by (auto simp: Size_iff)
    from leaves_postD[OF l Resize_shrink_post[OF v m]] cv show ?thesis
      by (auto dest: vec_is_Capacity)
  qed
  have 5: "Reserve T a m s = Return () s" if "m \<le> c" for m
    using that cv by (simp add: Reserve_noop[OF v])
  have 6: "Capacity a s' = Return (max 1 (c * 2)) s'"
    if "Size a s = Return c s" "EmplaceBack T a mk s = Return r s'" for mk r s'
  proof -
    from that(1) v have sz: "size' v = c" by (auto simp: Size_iff)
    have "vec_is s' a (Suc c) (max 1 (c * 2))"
      by (rule grown[OF Return_post[OF that(2) EmplaceBack_post[OF v]] sz cv])
    then show ?thesis by (rule vec_is_Capacity)
  qed
  have 7: "Capacity a s' = Return (max 1 (c * 2)) s'"
    if "Size a s = Return c s" "PushBack T a x s = Return () s'" for x s'
  proof -
    from that(1) v have sz: "size' v = c" by (auto simp: Size_iff)
    have "vec_is s' a (Suc c) (max 1 (c * 2))"
      by (rule grown[OF Return_post[OF that(2) PushBack_post[OF v]] sz cv])
    then show ?thesis by (rule vec_is_Capacity)
  qed
  have 8: "Capacity a s' = Return (max 1 (c * 2)) s'"
    if "Size a s = Return c s" "Emplace T a pos mk s = Return r s'" for pos mk r s'
  proof -
    from that(1) v have sz: "size' v = c" by (auto simp: Size_iff)
    have "vec_is s' a (Suc c) (max 1 (c * 2))"
      by (rule grown[OF Return_post[OF that(2) Emplace_post[OF v]] sz cv])
    then show ?thesis by (rule vec_is_Capacity)
  qed
  have 9: "Capacity a s' = Return (max 1 (c * 2)) s'"
    if "Size a s = Return c s" "Insert T a pos x s = Return r s'" for pos x r s'
    using 8[OF that(1), of pos "copy_construct T x" r s'] that(2) by (simp add: Insert_def)
  have 10: "\<exists>sl. position s' a 0 = Some (Ptr (length (blocks s)) 0) \<and>
                 block_at s' (length (blocks s)) = Some sl \<and> length sl = max 1 (c * 2)"
    if h: "value_semantics T \<and> holds s a xs \<and> length xs = c"
      and e: "EmplaceBack T a mk s = Return r s'" for xs mk r s'
  proof -
    from h have vs: "value_semantics T" and hs: "holds s a xs" and len: "length xs = c" by simp_all
    have full: "length xs = cap_of s a" using len v cv by (simp add: cap_of_def)
    from EmplaceBack_relocates[OF vs hs full, of mk] e
    obtain x where h': "holds s' a (xs @ [x])"
      and c': "cap_of s' a = (if length xs = 0 then 1 else length xs * 2)"
      and p': "position s' a 0 = Some (Ptr (length (blocks s)) 0)"
      by (auto simp: returns_iff)
    have c2: "cap_of s' a = max 1 (c * 2)" using c' len by (cases xs) simp_all
    then have "0 < cap_of s' a" by simp
    from holds_block[OF h' this] p' c2 show ?thesis by auto
  qed
  have 11: "returns (EmplaceBack T a (Some x) s)"
    if h: "value_semantics T \<and> holds s a xs \<and> length xs = c"
      and n: "nothrow T \<and> \<not> new_throws s" for xs x
  proof -
    from h have vs: "value_semantics T" and hs: "holds s a xs" and len: "length xs = c" by simp_all
    have full: "length xs = cap_of s a" using len v cv by (simp add: cap_of_def)
    from EmplaceBack_relocates[OF vs hs full, of "Some x"] n show ?thesis
      by (auto simp: returns_iff)
  qed
  have 12: "\<exists>k. Capacity a s' = Return (2 ^ k) s' \<and> length xs \<le> 2 ^ k \<and>
                (\<forall>j. length xs \<le> 2 ^ j \<longrightarrow> k \<le> j)"
    if d: "vecs s a = Some Vector_default"
      and r: "xs \<noteq> [] \<and> apply_ops T a (map Push xs) s = Return () s'" for xs s'
  proof -
    from d have "vec_is s a 0 (cap_seq 0)"
      by (simp add: vec_is_def Vector_default_def RawMemory_default_def)
    from pushes_post[OF this, of xs T] r
    have vi': "vec_is s' a (length xs) (cap_seq (length xs))" by simp
    from r have "0 < length xs" by simp
    from cap_seq_power[OF this] obtain k where k: "cap_seq (length xs) = 2 ^ k"
      "length xs \<le> 2 ^ k" "2 ^ k < 2 * length xs" by blast
    have "Capacity a s' = Return (2 ^ k) s'" using vec_is_Capacity[OF vi'] k(1) by simp
    moreover have "\<forall>j. length xs \<le> 2 ^ j \<longrightarrow> k \<le> j"
      using power_two_least[OF k(3)] by blast
    ultimately show ?thesis using k(2) by blast
  qed
  have 13: "returns (apply_ops T a (map Push xs) s)"
    if d: "vecs s a = Some Vector_default"
      and n: "value_semantics T \<and> nothrow T \<and> new_fails s = []" for xs
  proof -
    from n have vs: "value_semantics T" and nt: "nothrow T" and nf: "new_fails s = []"
      by simp_all
    show ?thesis
      by (rule apply_ops_returns[OF vs nt holds_default[OF d] nf]) (rule never_underflows_pushes)
  qed
  show ?thesis
    apply (intro conjI allI impI)
    subgoal for cs s' by (rule 1)
    subgoal for s' by (rule 2)
    subgoal for pos s' by (rule 3)
    subgoal for m n s' by (rule 4)
    subgoal for m by (rule 5)
    subgoal for mk r s' by (rule 6)
    subgoal for x s' by (rule 7)
    subgoal for pos mk r s' by (rule 8)
    subgoal for pos x r s' by (rule 9)
    subgoal for xs mk r s' by (rule 10)
    subgoal for xs x by (rule 11)
    subgoal for xs s' by (rule 12)
    subgoal for xs by (rule 13)
    done
qed

theorem capacity_policy_witness:
  "Capacity 0 abc = Return 4 abc \<and> Size 0 abc = Return 3 abc \<and>
   list_all (request_fits string_ops)
     [PushBack_call ''d'', PushBack_call ''e'', PopBack_call, Reserve_call 3, Resize_call 1] \<and>
   (\<exists>s'. leaves (run_all string_ops 0
             [PushBack_call ''d'', PushBack_call ''e'', PopBack_call, Reserve_call 3, Resize_call 1]
             abc) s' \<and>
         (\<exists>c'. Capacity 0 s' = Return c' s' \<and> 4 \<le> c')) \<and>
   (\<exists>s'. leaves (PopBack 0 abc) s' \<and> Capacity 0 s' = Return 4 s') \<and>
   (\<exists>s'. leaves (Erase string_ops 0 (Ptr 2 1) abc) s' \<and> Capacity 0 s' = Return 4 s') \<and>
   (\<exists>s'. leaves (Resize string_ops 0 1 abc) s' \<and> Capacity 0 s' = Return 4 s') \<and>
   Reserve string_ops 0 3 abc = Return () abc \<and>
   Capacity 0 ab = Return 2 ab \<and> Size 0 ab = Return 2 ab \<and>
   value_semantics string_ops \<and> holds ab 0 [''a'', ''b''] \<and>
   (\<exists>r s'. EmplaceBack string_ops 0 (Some ''c'') ab = Return r s' \<and>
      Capacity 0 s' = Return 4 s' \<and>
      (\<exists>sl. position s' 0 0 = Some (Ptr 2 0) \<and> block_at s' 2 = Some sl \<and> length sl = 4)) \<and>
   (\<exists>r s'. Emplace string_ops 0 (Ptr 1 1) (Some ''c'') ab = Return r s' \<and>
      Capacity 0 s' = Return 4 s') \<and>
   vecs (start :: string state) 0 = Some Vector_default \<and>
   (\<exists>s'. apply_ops string_ops 0 (map Push [''a'', ''b'', ''c'']) start = Return () s' \<and>
      Capacity 0 s' = Return 4 s')"
proof -
  let ?cs = "[PushBack_call ''d'', PushBack_call ''e'', PopBack_call, Reserve_call 3, Resize_call 1]"
  have ca: "Capacity 0 abc = Return 4 abc" and sa: "Size 0 abc = Return 3 abc"
    and cb: "Capacity 0 ab = Return 2 ab" and sb: "Size 0 ab = Return 2 ab"
    and c0: "Capacity 0 (start :: string state) = Return 0 start"
    and d0: "vecs (start :: string state) 0 = Some Vector_default"
    and bl: "length (blocks ab) = 2"
    by (simp_all add: Capacity_def Size_def this_obj_def abc_def ab_def start_def
        Vector_default_def RawMemory_default_def)
  have fit: "list_all (request_fits string_ops) ?cs"
    by (simp add: fits_def string_ops_def)
  note A = capacity_policy[OF ca, where T = string_ops]
  note B = capacity_policy[OF cb, where T = string_ops]
  note D = capacity_policy[OF c0, where T = string_ops]
  obtain s1 where "run_all string_ops 0 ?cs abc = Return () s1"
    by (simp add: alloc_defs elem_defs vector_defs abc_def string_ops_def eval_nat_numeral)
  then have l1: "leaves (run_all string_ops 0 ?cs abc) s1" by (simp add: leaves_def)
  obtain s2 where "PopBack 0 abc = Return () s2"
    by (simp add: alloc_defs elem_defs vector_defs abc_def eval_nat_numeral)
  then have l2: "leaves (PopBack 0 abc) s2" by (simp add: leaves_def)
  obtain r3 s3 where "Erase string_ops 0 (Ptr 2 1) abc = Return r3 s3"
    by (simp add: alloc_defs elem_defs vector_defs abc_def string_ops_def eval_nat_numeral)
  then have l3: "leaves (Erase string_ops 0 (Ptr 2 1) abc) s3" by (simp add: leaves_def)
  obtain s4 where "Resize string_ops 0 1 abc = Return () s4"
    by (simp add: alloc_defs elem_defs vector_defs abc_def string_ops_def eval_nat_numeral)
  then have l4: "leaves (Resize string_ops 0 1 abc) s4" by (simp add: leaves_def)
  obtain r5 s5 where e5: "EmplaceBack string_ops 0 (Some ''c'') ab = Return r5 s5"
    by (simp add: alloc_defs elem_defs vector_defs ab_def string_ops_def eval_nat_numeral)
  obtain r6 s6 where e6: "Emplace string_ops 0 (Ptr 1 1) (Some ''c'') ab = Return r6 s6"
    by (simp add: alloc_defs elem_defs vector_defs ab_def string_ops_def eval_nat_numeral)
  obtain s7 where e7: "apply_ops string_ops 0 (map Push [''a'', ''b'', ''c'']) start = Return () s7"
    by (simp add: alloc_defs elem_defs vector_defs start_def string_ops_def eval_nat_numeral)
  note A1 = A[THEN conjunct1, rule_format]
  note A2 = A[THEN conjunct2, THEN conjunct1, rule_format]
  note A3 = A[THEN conjunct2, THEN conjunct2, THEN conjunct1, rule_format]
  note A4 = A[THEN conjunct2, THEN conjunct2, THEN conjunct2, THEN conjunct1, rule_format]
  note A5 = A[THEN conjunct2, THEN conjunct2, THEN conjunct2, THEN conjunct2, THEN conjunct1,
      rule_format]
  note B6 = B[THEN conjunct2, THEN conjunct2, THEN conjunct2, THEN conjunct2, THEN conjunct2,
      THEN conjunct1, rule_format]
  note B7 = B[THEN conjunct2, THEN conjunct2, THEN conjunct2, THEN conjunct2, THEN conjunct2,
      THEN conjunct2, THEN conjunct1, rule_format]
  note D8 = D[THEN conjunct2, THEN conjunct2, THEN conjunct2, THEN conjunct2, THEN conjunct2,
      THEN conjunct2, THEN conjunct2, rule_format]
  have w1: "\<exists>c'. Capacity 0 s1 = Return c' s1 \<and> 4 \<le> c'" by (rule A1[OF conjI[OF fit l1]])
  have w2: "Capacity 0 s2 = Return 4 s2" by (rule A2[OF l2])
  have w3: "Capacity 0 s3 = Return 4 s3" by (rule A3[OF l3])
  have "(1 :: nat) \<le> 3" by simp
  from A4[OF conjI[OF sa conjI[OF this l4]]] have w4: "Capacity 0 s4 = Return 4 s4" .
  have "(3 :: nat) \<le> 4" by simp
  from A5[OF this] have w0: "Reserve string_ops 0 3 abc = Return () abc" .
  from B6[OF sb, THEN conjunct1, rule_format, OF e5]
  have w5: "Capacity 0 s5 = Return 4 s5" by simp
  from B6[OF sb, THEN conjunct2, THEN conjunct2, THEN conjunct1, rule_format, OF e6]
  have w6: "Capacity 0 s6 = Return 4 s6" by simp
  have len: "length [''a'', ''b''] = 2" by simp
  from B7[OF conjI[OF value_semantics_string conjI[OF holds_ab len]], THEN conjunct1,
      rule_format, OF e5]
  have w5b: "\<exists>sl. position s5 0 0 = Some (Ptr 2 0) \<and> block_at s5 2 = Some sl \<and> length sl = 4"
    using bl by simp
  have ne: "[''a'', ''b'', ''c''] \<noteq> []" by simp
  from D8[OF d0, THEN conjunct1, rule_format, OF conjI[OF ne e7]]
  obtain k where k: "Capacity 0 s7 = Return (2 ^ k) s7"
    "length [''a'', ''b'', ''c''] \<le> 2 ^ k"
    "\<forall>j. length [''a'', ''b'', ''c''] \<le> 2 ^ j \<longrightarrow> k \<le> j" by blast
  from k(3)[rule_format, of 2] have "k \<le> 2" by simp
  then have "k = 0 \<or> k = 1 \<or> k = 2" by arith
  with k(2) have "k = 2" by auto
  with k(1) have w7: "Capacity 0 s7 = Return 4 s7" by simp
  have x1: "\<exists>s'. leaves (run_all string_ops 0 ?cs abc) s' \<and>
         (\<exists>c'. Capacity 0 s' = Return c' s' \<and> 4 \<le> c')" using l1 w1 by blast
  have x2: "\<exists>s'. leaves (PopBack 0 abc) s' \<and> Capacity 0 s' = Return 4 s'" using l2 w2 by blast
  have x3: "\<exists>s'. leaves (Erase string_ops 0 (Ptr 2 1) abc) s' \<and> Capacity 0 s' = Return 4 s'"
    using l3 w3 by blast
  have x4: "\<exists>s'. leaves (Resize string_ops 0 1 abc) s' \<and> Capacity 0 s' = Return 4 s'"
    using l4 w4 by blast
  have x5: "\<exists>r s'. EmplaceBack string_ops 0 (Some ''c'') ab = Return r s' \<and>
      Capacity 0 s' = Return 4 s' \<and>
      (\<exists>sl. position s' 0 0 = Some (Ptr 2 0) \<and> block_at s' 2 = Some sl \<and> length sl = 4)"
    using e5 w5 w5b by blast
  have x6: "\<exists>r s'. Emplace string_ops 0 (Ptr 1 1) (Some ''c'') ab = Return r s' \<and>
      Capacity 0 s' = Return 4 s'" using e6 w6 by blast
  have x7: "\<exists>s'. apply_ops string_ops 0 (map Push [''a'', ''b'', ''c'']) start = Return () s' \<and>
      Capacity 0 s' = Return 4 s'" using e7 w7 by blast
  from ca sa fit x1 x2 x3 x4 w0 cb sb value_semantics_string holds_ab x5 x6 d0 x7
  show ?thesis by (intro conjI)
qed

end
